theory Spec2Isabelle
  imports Complex_Main "HOL-Library.Sublist" "HOL-Library.Multiset"
begin

section \<open>Detection evaluation (eval.py): data model\<close>

text \<open>
  The functions of \<^verbatim>\<open>eval.py\<close> are embedded as HOL functions.
  \<^item> Python floats (scores, areas, recall, precision, AP) are exact reals: the rounding of
    double-precision arithmetic, infinities and NaN are not modelled. The conversion to
    \<^verbatim>\<open>float32\<close> in \<^verbatim>\<open>compute_iou\<close> is modelled: it decides labels next to
    the threshold.
  \<^item> Python ints (the tp and fp flags, their running sums, the gt count) are \<open>int\<close>.
  \<^item> Every exception the code can raise is a value of \<open>error\<close>; a function that can
    raise returns \<open>error + 'a\<close>, with \<open>Inl\<close> for the exception.
  \<^item> \<^verbatim>\<open>result_stat\<close> is a dict from the IoU threshold to a dict with the keys
    \<^verbatim>\<open>score\<close>, \<^verbatim>\<open>fp\<close>, \<^verbatim>\<open>tp\<close>, \<^verbatim>\<open>gt\<close>: a map from reals to a
    record. Functions that write to it return the new dict.
  \<^item> The libraries are not part of the repository. shapely's areas are two parameters
    (\<open>ia p q\<close> for \<^verbatim>\<open>p.intersection(q).area\<close>, \<open>ua p q\<close> for
    \<^verbatim>\<open>p.union(q).area\<close>). numpy's \<^verbatim>\<open>argsort\<close> is a parameter as well: the code
    calls it with the default kind, for which numpy promises an index permutation that
    sorts the array and nothing about equal keys. So are numpy's two conversions to
    \<^verbatim>\<open>float32\<close>: \<open>rnd\<close> rounds each ratio in \<^verbatim>\<open>np.array(iou, dtype=np.float32)\<close>,
    and \<open>thr_cmp\<close> is what the comparison \<^verbatim>\<open>np.max(ious) < iou_thresh\<close> makes of
    the Python float on its right (numpy before 2.0 compares in double precision and leaves
    it as it is, numpy from 2.0 on rounds it to \<^verbatim>\<open>float32\<close> first).
    \<^verbatim>\<open>np.max\<close> and \<^verbatim>\<open>np.argmax\<close> (first index of the maximum) are written out.
\<close>

datatype error = ZeroDivisionError | IndexError | KeyError | AssertionError | ValueError

type_synonym point = "real list"
type_synonym box = "point list"
type_synonym polygon = "(real \<times> real) list"
type_synonym area_fn = "polygon \<Rightarrow> polygon \<Rightarrow> real"
type_synonym argsort_fn = "real list \<Rightarrow> nat list"
type_synonym round_fn = "real \<Rightarrow> real"

record bucket =
  score :: "real list"
  fp :: "int list"
  tp :: "int list"
  gt :: int

type_synonym result_stat = "real \<rightharpoonup> bucket"

subsection \<open>Python and numpy primitives\<close>

text \<open>\<^verbatim>\<open>xs[i]\<close> for an index \<open>i \<ge> 0\<close>: IndexError out of range.\<close>

definition py_get :: "'a list \<Rightarrow> nat \<Rightarrow> error + 'a" where
  "py_get xs i = (if i < length xs then Inr (xs ! i) else Inl IndexError)"

text \<open>A comprehension or loop that builds a list left to right; the first exception ends it.\<close>

fun map_err :: "('a \<Rightarrow> error + 'b) \<Rightarrow> 'a list \<Rightarrow> error + 'b list" where
  "map_err f [] = Inr []"
| "map_err f (x # xs) =
     (case f x of
        Inl e \<Rightarrow> Inl e
      | Inr y \<Rightarrow> (case map_err f xs of Inl e \<Rightarrow> Inl e | Inr ys \<Rightarrow> Inr (y # ys)))"

text \<open>\<^verbatim>\<open>xs.pop(i)\<close>, keeping the list that remains.\<close>

definition py_pop :: "'a list \<Rightarrow> nat \<Rightarrow> error + 'a list" where
  "py_pop xs i = (if i < length xs then Inr (take i xs @ drop (Suc i) xs) else Inl IndexError)"

text \<open>\<^verbatim>\<open>np.max\<close>: ValueError on an empty array.\<close>

definition np_max :: "real list \<Rightarrow> error + real" where
  "np_max xs = (case xs of [] \<Rightarrow> Inl ValueError | x # r \<Rightarrow> Inr (foldl max x r))"

text \<open>\<^verbatim>\<open>np.argmax\<close>: the first index that holds the maximum; ValueError on an empty array.\<close>

fun argmax_scan :: "real list \<Rightarrow> nat \<Rightarrow> real \<Rightarrow> nat \<Rightarrow> nat" where
  "argmax_scan [] i best bi = bi"
| "argmax_scan (x # xs) i best bi =
     (if best < x then argmax_scan xs (Suc i) x i else argmax_scan xs (Suc i) best bi)"

definition np_argmax :: "real list \<Rightarrow> error + nat" where
  "np_argmax xs = (case xs of [] \<Rightarrow> Inl ValueError | x # r \<Rightarrow> Inr (argmax_scan r 1 x 0))"

text \<open>
  What numpy promises of \<^verbatim>\<open>np.argsort(xs)\<close> with the default kind: the result \<open>idx\<close>
  holds every index of \<open>xs\<close> once, and \<open>xs\<close> read through it is ascending.
\<close>

definition valid_argsort :: "real list \<Rightarrow> nat list \<Rightarrow> bool" where
  "valid_argsort xs idx \<longleftrightarrow>
     length idx = length xs \<and> distinct idx \<and> list_all (\<lambda>i. i < length xs) idx \<and>
     sorted (map (\<lambda>i. xs ! i) idx)"

section \<open>voc\_ap\<close>

text \<open>
  The backward loop \<^verbatim>\<open>for i in range(len(mpre) - 2, -1, -1)\<close>: \<open>envelope_loop k m\<close>
  runs the iterations \<open>i = k - 1, ..., 0\<close>.
\<close>

fun envelope_loop :: "nat \<Rightarrow> real list \<Rightarrow> real list" where
  "envelope_loop 0 mpre = mpre"
| "envelope_loop (Suc i) mpre = envelope_loop i (mpre[i := max (mpre ! i) (mpre ! (i + 1))])"

definition i_list_of :: "real list \<Rightarrow> nat list" where
  "i_list_of mrec = filter (\<lambda>i. mrec ! i \<noteq> mrec ! (i - 1)) [1..<length mrec]"

fun ap_loop :: "real list \<Rightarrow> real list \<Rightarrow> nat list \<Rightarrow> real \<Rightarrow> error + real" where
  "ap_loop mrec mpre [] ap = Inr ap"
| "ap_loop mrec mpre (i # is) ap =
     (case py_get mrec i of
        Inl e \<Rightarrow> Inl e
      | Inr r1 \<Rightarrow>
          (case py_get mrec (i - 1) of
             Inl e \<Rightarrow> Inl e
           | Inr r0 \<Rightarrow>
               (case py_get mpre i of
                  Inl e \<Rightarrow> Inl e
                | Inr p \<Rightarrow> ap_loop mrec mpre is (ap + (r1 - r0) * p))))"

definition voc_ap :: "real list \<Rightarrow> real list \<Rightarrow> error + (real \<times> real list \<times> real list)" where
  "voc_ap rec prec =
     (let mrec = 0 # rec @ [1];
          mpre0 = 0 # prec @ [0];
          mpre = envelope_loop (length mpre0 - 1) mpre0;
          i_list = i_list_of mrec
      in case ap_loop mrec mpre i_list 0 of
           Inl e \<Rightarrow> Inl e
         | Inr ap \<Rightarrow> Inr (ap, mrec, mpre))"

section \<open>Geometry\<close>

text \<open>
  \<^verbatim>\<open>box_2_polygon\<close> reads \<^verbatim>\<open>box[i, 0]\<close> and \<^verbatim>\<open>box[i, 1]\<close> for the first four
  corners; \<^verbatim>\<open>convert_format\<close> does so for every box of the array.
\<close>

definition corner_xy :: "box \<Rightarrow> nat \<Rightarrow> error + (real \<times> real)" where
  "corner_xy b i =
     (case py_get b i of
        Inl e \<Rightarrow> Inl e
      | Inr p \<Rightarrow>
          (case py_get p 0 of
             Inl e \<Rightarrow> Inl e
           | Inr x \<Rightarrow> (case py_get p 1 of Inl e \<Rightarrow> Inl e | Inr y \<Rightarrow> Inr (x, y))))"

definition box_2_polygon :: "box \<Rightarrow> error + polygon" where
  "box_2_polygon box_array = map_err (corner_xy box_array) [0, 1, 2, 3]"

definition convert_format :: "box list \<Rightarrow> error + polygon list" where
  "convert_format boxes_array = map_err box_2_polygon boxes_array"

text \<open>
  \<^verbatim>\<open>[box.intersection(b).area / box.union(b).area for b in boxes]\<close>: the areas are
  Python floats, so a zero union area raises ZeroDivisionError. The list of ratios is then
  converted to an array of \<^verbatim>\<open>float32\<close> (line 80), which rounds each of them.
\<close>

definition iou_of :: "area_fn \<Rightarrow> area_fn \<Rightarrow> polygon \<Rightarrow> polygon \<Rightarrow> error + real" where
  "iou_of ia ua p b = (if ua p b = 0 then Inl ZeroDivisionError else Inr (ia p b / ua p b))"

definition compute_iou ::
  "area_fn \<Rightarrow> area_fn \<Rightarrow> round_fn \<Rightarrow> polygon \<Rightarrow> polygon list \<Rightarrow> error + real list" where
  "compute_iou ia ua rnd p boxes =
     (case map_err (iou_of ia ua p) boxes of
        Inl e \<Rightarrow> Inl e
      | Inr iou \<Rightarrow> Inr (map rnd iou))"

text \<open>The IoU of two polygons as \<^verbatim>\<open>compute_iou\<close> returns it: the rounded ratio.\<close>

definition rounded_iou :: "area_fn \<Rightarrow> area_fn \<Rightarrow> round_fn \<Rightarrow> polygon \<Rightarrow> polygon \<Rightarrow> real" where
  "rounded_iou ia ua rnd p b = rnd (ia p b / ua p b)"

section \<open>caluclate\_tp\_fp\<close>

text \<open>
  The matching loop (lines 112 to 125) over the sorted indices that are still to do. The
  state of the loop is the working list \<^verbatim>\<open>gt_polygon_list\<close> and the lists \<^verbatim>\<open>fp\<close>
  and \<^verbatim>\<open>tp\<close>; the final working list is returned with the flags. Its
  \<open>iou_thresh\<close> is the threshold as the comparison of line 116 reads it:
  \<^verbatim>\<open>caluclate_tp_fp\<close> passes \<open>thr_cmp iou_thresh\<close>.
\<close>

fun match_loop ::
  "area_fn \<Rightarrow> area_fn \<Rightarrow> round_fn \<Rightarrow> polygon list \<Rightarrow> real \<Rightarrow> nat list \<Rightarrow> polygon list \<Rightarrow> int list \<Rightarrow> int list
     \<Rightarrow> error + (int list \<times> int list \<times> polygon list)" where
  "match_loop ia ua rnd det_polygon_list iou_thresh [] gt_polygon_list fps tps =
     Inr (fps, tps, gt_polygon_list)"
| "match_loop ia ua rnd det_polygon_list iou_thresh (k # ks) gt_polygon_list fps tps =
     (case py_get det_polygon_list k of
        Inl e \<Rightarrow> Inl e
      | Inr det_polygon \<Rightarrow>
          (case compute_iou ia ua rnd det_polygon gt_polygon_list of
             Inl e \<Rightarrow> Inl e
           | Inr ious \<Rightarrow>
               if length gt_polygon_list = 0 then
                 match_loop ia ua rnd det_polygon_list iou_thresh ks gt_polygon_list
                   (fps @ [1]) (tps @ [0])
               else
                 (case np_max ious of
                    Inl e \<Rightarrow> Inl e
                  | Inr m \<Rightarrow>
                      if m < iou_thresh then
                        match_loop ia ua rnd det_polygon_list iou_thresh ks gt_polygon_list
                          (fps @ [1]) (tps @ [0])
                      else
                        (case np_argmax ious of
                           Inl e \<Rightarrow> Inl e
                         | Inr gt_index \<Rightarrow>
                             (case py_pop gt_polygon_list gt_index of
                                Inl e \<Rightarrow> Inl e
                              | Inr rest \<Rightarrow>
                                  match_loop ia ua rnd det_polygon_list iou_thresh ks rest
                                    (fps @ [0]) (tps @ [1]))))))"

text \<open>
  Lines 127 to 131. Each \<^verbatim>\<open>result_stat[iou_thresh]\<close> raises KeyError when the key is
  missing; \<open>new_score\<close> is \<open>None\<close> when line 127 is skipped.
\<close>

definition stat_add ::
  "result_stat \<Rightarrow> real \<Rightarrow> real list option \<Rightarrow> int list \<Rightarrow> int list \<Rightarrow> int \<Rightarrow> error + result_stat" where
  "stat_add result_stat iou_thresh new_score fps tps gt_n =
     (case result_stat iou_thresh of
        None \<Rightarrow> Inl KeyError
      | Some b \<Rightarrow>
          Inr (result_stat(iou_thresh \<mapsto>
                 b\<lparr>score := (case new_score of None \<Rightarrow> score b | Some s \<Rightarrow> score b @ s),
                   fp := fp b @ fps, tp := tp b @ tps, gt := gt b + gt_n\<rparr>)))"

definition caluclate_tp_fp ::
  "argsort_fn \<Rightarrow> area_fn \<Rightarrow> area_fn \<Rightarrow> round_fn \<Rightarrow> round_fn \<Rightarrow> box list option \<Rightarrow> real list \<Rightarrow> box list \<Rightarrow> result_stat \<Rightarrow> real
     \<Rightarrow> error + result_stat" where
  "caluclate_tp_fp argsort ia ua rnd thr_cmp det_boxes det_score gt_boxes result_stat iou_thresh =
     (let gt_n = int (length gt_boxes) in
      case det_boxes of
        None \<Rightarrow> stat_add result_stat iou_thresh None [] [] gt_n
      | Some boxes \<Rightarrow>
          (let score_order_descend = argsort (map uminus det_score) in
           case map_err (py_get det_score) score_order_descend of
             Inl e \<Rightarrow> Inl e
           | Inr sorted_score \<Rightarrow>
               (case convert_format boxes of
                  Inl e \<Rightarrow> Inl e
                | Inr det_polygon_list \<Rightarrow>
                    (case convert_format gt_boxes of
                       Inl e \<Rightarrow> Inl e
                     | Inr gt_polygon_list \<Rightarrow>
                         (case match_loop ia ua rnd det_polygon_list (thr_cmp iou_thresh)
                                 score_order_descend
                                 gt_polygon_list [] [] of
                            Inl e \<Rightarrow> Inl e
                          | Inr (fps, tps, rest) \<Rightarrow>
                              stat_add result_stat iou_thresh (Some sorted_score) fps tps gt_n)))))"

section \<open>calculate\_ap\<close>

text \<open>The two loops \<^verbatim>\<open>xs[idx] += cumsum; cumsum += val\<close>, with the running sum so far.\<close>

fun cumsum_loop :: "int \<Rightarrow> int list \<Rightarrow> int list" where
  "cumsum_loop cumsum [] = []"
| "cumsum_loop cumsum (val # vals) = (val + cumsum) # cumsum_loop (cumsum + val) vals"

text \<open>
  Lines 152 to 159: with \<^verbatim>\<open>global_sort_detections\<close> the flags are copied into fresh
  arrays and reordered by the argsort of the negated scores.
\<close>

definition global_sort :: "argsort_fn \<Rightarrow> bucket \<Rightarrow> error + (int list \<times> int list)" where
  "global_sort argsort iou_5 =
     (if \<not> (length (fp iou_5) = length (tp iou_5) \<and> length (tp iou_5) = length (score iou_5))
      then Inl AssertionError
      else
        (let sorted_index = argsort (map uminus (score iou_5)) in
         case map_err (py_get (fp iou_5)) sorted_index of
           Inl e \<Rightarrow> Inl e
         | Inr fps \<Rightarrow>
             (case map_err (py_get (tp iou_5)) sorted_index of
                Inl e \<Rightarrow> Inl e
              | Inr tps \<Rightarrow> Inr (fps, tps))))"

text \<open>Lines 178 to 186, on the cumulative sums: recall, precision, then \<^verbatim>\<open>voc_ap\<close>.\<close>

definition rec_of :: "int \<Rightarrow> int \<Rightarrow> error + real" where
  "rec_of gt_total t =
     (if gt_total = 0 then Inl ZeroDivisionError else Inr (real_of_int t / real_of_int gt_total))"

definition prec_of :: "int list \<Rightarrow> int list \<Rightarrow> nat \<Rightarrow> error + real" where
  "prec_of fps tps idx =
     (case py_get fps idx of
        Inl e \<Rightarrow> Inl e
      | Inr f \<Rightarrow>
          (case py_get tps idx of
             Inl e \<Rightarrow> Inl e
           | Inr t \<Rightarrow>
               if f + t = 0 then Inl ZeroDivisionError
               else Inr (real_of_int t / real_of_int (f + t))))"

definition curves_ap ::
  "int list \<Rightarrow> int list \<Rightarrow> int \<Rightarrow> error + (real \<times> real list \<times> real list)" where
  "curves_ap fps tps gt_total =
     (case map_err (rec_of gt_total) tps of
        Inl e \<Rightarrow> Inl e
      | Inr rec \<Rightarrow>
          (case map_err (prec_of fps tps) [0..<length tps] of
             Inl e \<Rightarrow> Inl e
           | Inr prec \<Rightarrow> voc_ap rec prec))"

text \<open>
  \<^verbatim>\<open>calculate_ap\<close> returns its outcome and the dict as the call leaves it. Without
  \<^verbatim>\<open>global_sort_detections\<close> the names \<^verbatim>\<open>fp\<close> and \<^verbatim>\<open>tp\<close> are bound to the
  lists stored in the bucket (line 162 and 163 make no copy), so the two cumulative-sum
  loops write into the bucket; with it they write into the fresh lists of
  \<open>global_sort\<close>.
\<close>

definition calculate_ap ::
  "argsort_fn \<Rightarrow> result_stat \<Rightarrow> real \<Rightarrow> bool
     \<Rightarrow> (error + (real \<times> real list \<times> real list)) \<times> result_stat" where
  "calculate_ap argsort result_stat iou global_sort_detections =
     (case result_stat iou of
        None \<Rightarrow> (Inl KeyError, result_stat)
      | Some iou_5 \<Rightarrow>
          if global_sort_detections then
            (case global_sort argsort iou_5 of
               Inl e \<Rightarrow> (Inl e, result_stat)
             | Inr (fps, tps) \<Rightarrow>
                 (curves_ap (cumsum_loop 0 fps) (cumsum_loop 0 tps) (gt iou_5), result_stat))
          else if length (fp iou_5) \<noteq> length (tp iou_5) then (Inl AssertionError, result_stat)
          else
            (let fps = cumsum_loop 0 (fp iou_5);
                 tps = cumsum_loop 0 (tp iou_5)
             in (curves_ap fps tps (gt iou_5),
                 result_stat(iou \<mapsto> iou_5\<lparr>fp := fps, tp := tps\<rparr>))))"

section \<open>The specification's wording, and the calls of a run\<close>

text \<open>
  The matcher as the specification words it, on the detections taken in their sorted
  order and the working list of unclaimed ground truth: a detection is false-positive when
  the working list is empty or the largest IoU against it is below the threshold;
  otherwise it is true-positive and the first box that reaches the largest IoU leaves the
  working list. The labels (\<open>True\<close> for true-positive) come with the final working list.
\<close>

fun spec_match ::
  "(polygon \<Rightarrow> polygon \<Rightarrow> real) \<Rightarrow> real \<Rightarrow> polygon list \<Rightarrow> polygon list \<Rightarrow> bool list \<times> polygon list" where
  "spec_match iou thr [] working = ([], working)"
| "spec_match iou thr (d # ds) working =
     (if working = [] \<or> Max (set (map (iou d) working)) < thr then
        (case spec_match iou thr ds working of (labels, rest) \<Rightarrow> (False # labels, rest))
      else
        (let m = Max (set (map (iou d) working));
             working' = takeWhile (\<lambda>g. iou d g \<noteq> m) working @
                        tl (dropWhile (\<lambda>g. iou d g \<noteq> m) working)
         in case spec_match iou thr ds working' of (labels, rest) \<Rightarrow> (True # labels, rest)))"

definition tp_flags :: "bool list \<Rightarrow> int list" where
  "tp_flags labels = map (\<lambda>l. if l then 1 else 0) labels"

definition fp_flags :: "bool list \<Rightarrow> int list" where
  "fp_flags labels = map (\<lambda>l. if l then 0 else 1) labels"

text \<open>
  The statistics a run can hold: every bucket is created empty, and each call of
  \<^verbatim>\<open>caluclate_tp_fp\<close> that returns leads from one dict to the next (a call that
  raises does so before line 127 writes, and leaves the dict as it was).
\<close>

definition empty_bucket :: bucket where
  "empty_bucket = \<lparr>score = [], fp = [], tp = [], gt = 0\<rparr>"

inductive accumulated ::
  "argsort_fn \<Rightarrow> area_fn \<Rightarrow> area_fn \<Rightarrow> round_fn \<Rightarrow> round_fn \<Rightarrow> result_stat \<Rightarrow> bool"
  for argsort :: argsort_fn and ia :: area_fn and ua :: area_fn
    and rnd :: round_fn and thr_cmp :: round_fn where
  start: "ran result_stat \<subseteq> {empty_bucket} \<Longrightarrow> accumulated argsort ia ua rnd thr_cmp result_stat"
| call:
    "accumulated argsort ia ua rnd thr_cmp result_stat \<Longrightarrow>
     caluclate_tp_fp argsort ia ua rnd thr_cmp det_boxes det_score gt_boxes result_stat iou_thresh
       = Inr result_stat' \<Longrightarrow>
     accumulated argsort ia ua rnd thr_cmp result_stat'"

subsection \<open>A small frame for the instances\<close>

text \<open>
  Two unit squares far apart, with the areas shapely gives for them: a square against
  itself has intersection 1 and union 1, against the other one intersection 0 and union 2.
  \<open>point_box\<close> has its four corners in one point: every area with it is 0.
\<close>

definition box_A :: box where
  "box_A = [[0, 0], [1, 0], [1, 1], [0, 1]]"

definition box_B :: box where
  "box_B = [[5, 5], [6, 5], [6, 6], [5, 6]]"

definition sq_ia :: area_fn where
  "sq_ia p q = (if p = q then 1 else 0)"

definition sq_ua :: area_fn where
  "sq_ua p q = (if p = q then 1 else 2)"

text \<open>
  The ratios of the two squares are 0 and 1 and the threshold of the instances is 1/2:
  these are \<^verbatim>\<open>float32\<close> values, which the two conversions leave as they are.
\<close>

definition as_is :: round_fn where
  "as_is x = x"

definition point_poly :: polygon where
  "point_poly = [(0, 0), (0, 0), (0, 0), (0, 0)]"

definition zero_area :: area_fn where
  "zero_area p q = 0"

definition stat0 :: result_stat where
  "stat0 = Map.empty(1/2 \<mapsto> empty_bucket)"

definition poly_A :: polygon where
  "poly_A = [(0, 0), (1, 0), (1, 1), (0, 1)]"

definition poly_B :: polygon where
  "poly_B = [(5, 5), (6, 5), (6, 6), (5, 6)]"

definition bucket_AB :: bucket where
  "bucket_AB = \<lparr>score = [9/10, 8/10], fp = [0, 1], tp = [1, 0], gt = 1\<rparr>"


subsection \<open>numpy's default argsort on eighteen equal keys\<close>

text \<open>
  numpy's default kind is an introsort on the index array: while a range holds more than
  17 indices it is partitioned around the median of its first, middle and last key (the
  pivot index is parked next to the last one, the scans from both ends stop at every key
  that is not smaller, respectively not larger, than the pivot and swap what they stopped
  at), and a range of at most 17 indices is sorted by insertion. On eighteen equal keys
  the one partition swaps the indices 1 to 7 with the indices 15 to 9 and the insertion
  sorts move nothing, which gives \<open>order_traced\<close>. \<open>argsort_traced\<close> returns this
  order on eighteen keys equal to -1/2 and sorts by insertion elsewhere, so that it is
  an argsort on every input. This is the scalar code of numpy's quicksort; a numpy that
  hands argsort to vector instructions may leave equal keys in another order.
\<close>

definition order_traced :: "nat list" where
  "order_traced = [0, 15, 14, 13, 12, 11, 10, 9, 8, 7, 6, 5, 4, 3, 2, 1, 16, 17]"

definition argsort_traced :: argsort_fn where
  "argsort_traced xs =
     (if xs = replicate 18 (- (1/2)) then order_traced
      else sort_key (\<lambda>i. xs ! i) [0..<length xs])"


section \<open>Results on the primitives\<close>

lemma map_err_Inr_iff:
  "map_err f xs = Inr ys \<longleftrightarrow>
     length ys = length xs \<and> (\<forall>i<length xs. f (xs ! i) = Inr (ys ! i))"
proof (induction xs arbitrary: ys)
  case Nil
  then show ?case by auto
next
  case (Cons x xs)
  show ?case
  proof (cases ys)
    case Nil
    then show ?thesis by (auto split: sum.splits)
  next
    case (Cons y ys')
    then show ?thesis
      using Cons.IH[of ys']
      by (auto split: sum.splits simp: nth_Cons' less_Suc_eq_0_disj)
  qed
qed

lemma map_err_Inl:
  "map_err f xs = Inl e \<Longrightarrow> \<exists>x\<in>set xs. f x = Inl e"
  by (induction xs) (auto split: sum.splits)

lemma foldl_max_Max: "foldl max (x::real) r = Max (insert x (set r))"
proof (induction r arbitrary: x)
  case Nil
  then show ?case by simp
next
  case (Cons y ys)
  have "Max (insert (max x y) (set ys)) = Max (insert x (insert y (set ys)))"
    by (cases "set ys = {}") (simp_all add: max.assoc)
  with Cons show ?case by simp
qed

lemma np_max_Max: "xs \<noteq> [] \<Longrightarrow> np_max xs = Inr (Max (set xs))"
  by (cases xs) (simp_all add: np_max_def foldl_max_Max)

lemma argmax_scan_first:
  assumes "pre \<noteq> []" "best = Max (set pre)"
    "bi = length (takeWhile (\<lambda>v. v \<noteq> Max (set pre)) pre)" "i = length pre"
  shows "argmax_scan xs i best bi
           = length (takeWhile (\<lambda>v. v \<noteq> Max (set (pre @ xs))) (pre @ xs))"
  using assms
proof (induction xs arbitrary: pre best bi i)
  case Nil
  then show ?case by simp
next
  case (Cons x xs)
  have fin: "finite (set pre)" "set pre \<noteq> {}" using Cons.prems by auto
  show ?case
  proof (cases "best < x")
    case True
    have "Max (set (pre @ [x])) = max x (Max (set pre))"
      using fin by simp
    then have mx: "Max (set (pre @ [x])) = x"
      using True Cons.prems(2) by simp
    have "\<forall>v\<in>set pre. v \<noteq> x"
      using True Cons.prems(2) fin Max_ge[OF fin(1)] by fastforce
    then have tw: "length (takeWhile (\<lambda>v. v \<noteq> Max (set (pre @ [x]))) (pre @ [x])) = length pre"
      unfolding mx by simp
    have "argmax_scan xs (Suc i) x i
            = length (takeWhile (\<lambda>v. v \<noteq> Max (set ((pre @ [x]) @ xs))) ((pre @ [x]) @ xs))"
      by (rule Cons.IH) (use Cons.prems mx tw in simp_all)
    with True show ?thesis by simp
  next
    case False
    have "Max (set (pre @ [x])) = max x (Max (set pre))"
      using fin by simp
    then have mx: "Max (set (pre @ [x])) = best"
      using False Cons.prems(2) by simp
    have "best \<in> set pre" using Cons.prems(2) fin Max_in by blast
    then have tw: "length (takeWhile (\<lambda>v. v \<noteq> Max (set (pre @ [x]))) (pre @ [x])) = bi"
      unfolding mx using Cons.prems(2,3) by simp
    have "argmax_scan xs (Suc i) best bi
            = length (takeWhile (\<lambda>v. v \<noteq> Max (set ((pre @ [x]) @ xs))) ((pre @ [x]) @ xs))"
      by (rule Cons.IH) (use Cons.prems mx tw in simp_all)
    with False show ?thesis by simp
  qed
qed

lemma np_argmax_first:
  "xs \<noteq> [] \<Longrightarrow> np_argmax xs = Inr (length (takeWhile (\<lambda>v. v \<noteq> Max (set xs)) xs))"
proof (cases xs)
  case Nil
  then show "xs \<noteq> [] \<Longrightarrow> ?thesis" by simp
next
  case (Cons x r)
  have "argmax_scan r 1 x 0 = length (takeWhile (\<lambda>v. v \<noteq> Max (set ([x] @ r))) ([x] @ r))"
    by (rule argmax_scan_first) simp_all
  then show ?thesis by (simp add: np_argmax_def Cons)
qed

lemma first_max_less:
  "xs \<noteq> [] \<Longrightarrow> length (takeWhile (\<lambda>v. v \<noteq> Max (set xs)) xs) < length (xs :: real list)"
proof -
  assume "xs \<noteq> []"
  then have "Max (set xs) \<in> set xs" by simp
  then have "\<exists>v\<in>set xs. \<not> v \<noteq> Max (set xs)" by blast
  then have "takeWhile (\<lambda>v. v \<noteq> Max (set xs)) xs \<noteq> xs"
    by simp
  then have "length (takeWhile (\<lambda>v. v \<noteq> Max (set xs)) xs) \<noteq> length xs"
    by (metis takeWhile_eq_take take_all order_refl)
  then show ?thesis
    using length_takeWhile_le[of "\<lambda>v. v \<noteq> Max (set xs)" xs] by linarith
qed

lemma py_pop_first:
  "length (takeWhile P xs) < length xs \<Longrightarrow>
   py_pop xs (length (takeWhile P xs)) = Inr (takeWhile P xs @ tl (dropWhile P xs))"
proof (induction xs)
  case Nil
  then show ?case by simp
next
  case (Cons x xs)
  then show ?case by (cases "P x") (simp_all add: py_pop_def)
qed

section \<open>compute\_iou\<close>

lemma ratios_cases:
  "map_err (iou_of ia ua p) boxes =
     (if \<exists>b\<in>set boxes. ua p b = 0 then Inl ZeroDivisionError
      else Inr (map (\<lambda>b. ia p b / ua p b) boxes))"
proof (induction boxes)
  case Nil
  then show ?case by simp
next
  case (Cons b bs)
  then show ?case by (auto simp: iou_of_def)
qed

lemma compute_iou_cases:
  "compute_iou ia ua rnd p boxes =
     (if \<exists>b\<in>set boxes. ua p b = 0 then Inl ZeroDivisionError
      else Inr (map (\<lambda>b. rnd (ia p b / ua p b)) boxes))"
  by (simp add: compute_iou_def ratios_cases)

text \<open>
  C3 (as the code has it). \<^verbatim>\<open>compute_iou\<close> returns the ratio of intersection area to
  union area for each candidate, in order and rounded to \<^verbatim>\<open>float32\<close>, when no union
  area is zero; as soon as one union area is zero it raises ZeroDivisionError. It has no
  convention that makes such an IoU 0.0.
\<close>

theorem compute_iou_result:
  "compute_iou ia ua rnd p boxes =
     (if \<exists>b\<in>set boxes. ua p b = 0 then Inl ZeroDivisionError
      else Inr (map (\<lambda>b. rnd (ia p b / ua p b)) boxes))"
  by (rule compute_iou_cases)

theorem compute_iou_result_witness:
  "compute_iou sq_ia sq_ua as_is poly_A [poly_A, poly_B] = Inr [1, 0]"
  using compute_iou_result [of sq_ia sq_ua as_is poly_A "[poly_A, poly_B]"]
  by (simp add: sq_ia_def sq_ua_def as_is_def rounded_iou_def poly_A_def poly_B_def)

text \<open>
  C3 as the specification states it fails: for a polygon whose union with the candidate
  has area zero the call raises instead of returning 0.0.
\<close>

theorem compute_iou_zero_union_raises:
  "compute_iou zero_area zero_area as_is point_poly [point_poly] = Inl ZeroDivisionError"
  by (simp add: compute_iou_def iou_of_def zero_area_def)

section \<open>The matcher\<close>

lemma flags_snoc:
  "fp_flags (l # ls) = (if l then 0 else 1) # fp_flags ls"
  "tp_flags (l # ls) = (if l then 1 else 0) # tp_flags ls"
  by (simp_all add: fp_flags_def tp_flags_def)

lemma py_pop_length:
  "py_pop xs i = Inr ys \<Longrightarrow> Suc (length ys) = length xs"
  by (auto simp: py_pop_def split: if_splits)

lemma match_loop_labels:
  "match_loop ia ua rnd dets thr ks gts fps tps = Inr (fps', tps', rest) \<Longrightarrow>
   \<exists>labels. length labels = length ks \<and> fps' = fps @ fp_flags labels \<and>
     tps' = tps @ tp_flags labels \<and>
     length rest + length (filter (\<lambda>l. l) labels) = length gts"
proof (induction ks arbitrary: gts fps tps)
  case Nil
  then show ?case by (auto simp: fp_flags_def tp_flags_def)
next
  case (Cons k ks)
  from Cons.prems obtain d ious where d: "py_get dets k = Inr d"
    and ious: "compute_iou ia ua rnd d gts = Inr ious"
    by (auto split: sum.splits)
  consider (empty) "length gts = 0"
    | (low) m where "length gts \<noteq> 0" "np_max ious = Inr m" "m < thr"
    | (hit) m j gts' where "length gts \<noteq> 0" "np_max ious = Inr m" "\<not> m < thr"
        "np_argmax ious = Inr j" "py_pop gts j = Inr gts'"
    using Cons.prems d ious by (auto split: sum.splits if_splits)
  then show ?case
  proof cases
    case empty
    with Cons.prems d ious
    have "match_loop ia ua rnd dets thr ks gts (fps @ [1]) (tps @ [0]) = Inr (fps', tps', rest)"
      by simp
    from Cons.IH[OF this] obtain labels where
      "length labels = length ks" "fps' = (fps @ [1]) @ fp_flags labels"
      "tps' = (tps @ [0]) @ tp_flags labels"
      "length rest + length (filter (\<lambda>l. l) labels) = length gts" by blast
    then show ?thesis
      by (intro exI[of _ "False # labels"]) (simp add: flags_snoc)
  next
    case low
    with Cons.prems d ious
    have "match_loop ia ua rnd dets thr ks gts (fps @ [1]) (tps @ [0]) = Inr (fps', tps', rest)"
      by simp
    from Cons.IH[OF this] obtain labels where
      "length labels = length ks" "fps' = (fps @ [1]) @ fp_flags labels"
      "tps' = (tps @ [0]) @ tp_flags labels"
      "length rest + length (filter (\<lambda>l. l) labels) = length gts" by blast
    then show ?thesis
      by (intro exI[of _ "False # labels"]) (simp add: flags_snoc)
  next
    case hit
    with Cons.prems d ious
    have "match_loop ia ua rnd dets thr ks gts' (fps @ [0]) (tps @ [1]) = Inr (fps', tps', rest)"
      by simp
    from Cons.IH[OF this] obtain labels where
      "length labels = length ks" "fps' = (fps @ [0]) @ fp_flags labels"
      "tps' = (tps @ [1]) @ tp_flags labels"
      "length rest + length (filter (\<lambda>l. l) labels) = length gts'" by blast
    then show ?thesis
      using py_pop_length[OF hit(5)]
      by (intro exI[of _ "True # labels"]) (simp add: flags_snoc)
  qed
qed

lemma spec_working_subset:
  "set (takeWhile P xs @ tl (dropWhile P xs)) \<subseteq> set xs"
proof -
  have "\<And>ys :: 'a list. set (tl ys) \<subseteq> set ys"
    by (case_tac ys) auto
  then have "set (tl (dropWhile P xs)) \<subseteq> set (dropWhile P xs)" .
  moreover have "set (dropWhile P xs) \<subseteq> set xs"
    by (auto dest: set_dropWhileD)
  moreover have "set (takeWhile P xs) \<subseteq> set xs"
    by (auto dest: set_takeWhileD)
  ultimately show ?thesis by auto
qed

lemma match_loop_refines:
  assumes "\<forall>k\<in>set ks. k < length dets"
    and "\<forall>d\<in>set dets. \<forall>g\<in>set gts. ua d g \<noteq> 0"
  shows "match_loop ia ua rnd dets thr ks gts fps tps =
     (case spec_match (rounded_iou ia ua rnd) thr (map (\<lambda>k. dets ! k) ks) gts of
        (labels, rest) \<Rightarrow> Inr (fps @ fp_flags labels, tps @ tp_flags labels, rest))"
  using assms
proof (induction ks arbitrary: gts fps tps)
  case Nil
  then show ?case by (simp add: fp_flags_def tp_flags_def)
next
  case (Cons k ks)
  define d where "d = dets ! k"
  define iou where "iou = rounded_iou ia ua rnd"
  have klt: "k < length dets" and ks: "\<forall>k\<in>set ks. k < length dets"
    using Cons.prems(1) by auto
  then have dmem: "d \<in> set dets" by (simp add: d_def)
  have get: "py_get dets k = Inr d" using klt by (simp add: py_get_def d_def)
  have ious: "compute_iou ia ua rnd d gts = Inr (map (iou d) gts)"
    using Cons.prems(2) dmem by (simp add: compute_iou_cases iou_def rounded_iou_def)
  define M where "M = Max (set (map (iou d) gts))"
  define P where "P = (\<lambda>g. iou d g \<noteq> M)"
  define gts' where "gts' = takeWhile P gts @ tl (dropWhile P gts)"
  define ds where "ds = map (\<lambda>k. dets ! k) ks"
  have sm: "spec_match iou thr (d # ds) gts =
     (if gts = [] \<or> M < thr
      then (case spec_match iou thr ds gts of (labels, rest) \<Rightarrow> (False # labels, rest))
      else (case spec_match iou thr ds gts' of (labels, rest) \<Rightarrow> (True # labels, rest)))"
    unfolding M_def gts'_def P_def by (simp only: spec_match.simps Let_def)
  have miss: "match_loop ia ua rnd dets thr ks gts (fps @ [1]) (tps @ [0]) =
     (case spec_match iou thr ds gts of
        (labels, rest) \<Rightarrow> Inr ((fps @ [1]) @ fp_flags labels, (tps @ [0]) @ tp_flags labels, rest))"
    unfolding iou_def ds_def by (rule Cons.IH[OF ks Cons.prems(2)])
  have goal_eq: "map (\<lambda>k. dets ! k) (k # ks) = d # ds"
    by (simp add: d_def ds_def)
  show ?case
    unfolding iou_def[symmetric] goal_eq sm
  proof (cases "gts = []")
    case True
    then show "match_loop ia ua rnd dets thr (k # ks) gts fps tps =
      (case if gts = [] \<or> M < thr
            then case spec_match iou thr ds gts of (labels, rest) \<Rightarrow> (False # labels, rest)
            else case spec_match iou thr ds gts' of (labels, rest) \<Rightarrow> (True # labels, rest) of
         (labels, rest) \<Rightarrow> Inr (fps @ fp_flags labels, tps @ tp_flags labels, rest))"
      using get ious miss by (simp add: flags_snoc split: prod.splits)
  next
    case False
    have mx: "np_max (map (iou d) gts) = Inr M"
      using False by (simp add: np_max_Max M_def)
    show "match_loop ia ua rnd dets thr (k # ks) gts fps tps =
      (case if gts = [] \<or> M < thr
            then case spec_match iou thr ds gts of (labels, rest) \<Rightarrow> (False # labels, rest)
            else case spec_match iou thr ds gts' of (labels, rest) \<Rightarrow> (True # labels, rest) of
         (labels, rest) \<Rightarrow> Inr (fps @ fp_flags labels, tps @ tp_flags labels, rest))"
    proof (cases "M < thr")
      case True
      then show ?thesis
        using False get ious mx miss by (simp add: flags_snoc split: prod.splits)
    next
      case nlow: False
      have tw: "takeWhile (\<lambda>v. v \<noteq> Max (set (map (iou d) gts))) (map (iou d) gts)
                  = map (iou d) (takeWhile P gts)"
        by (simp add: takeWhile_map P_def M_def comp_def)
      have am: "np_argmax (map (iou d) gts) = Inr (length (takeWhile P gts))"
        using False np_argmax_first[of "map (iou d) gts"] unfolding tw by simp
      have "length (takeWhile (\<lambda>v. v \<noteq> Max (set (map (iou d) gts))) (map (iou d) gts))
              < length (map (iou d) gts)"
        using False by (intro first_max_less) simp
      then have lt: "length (takeWhile P gts) < length gts" unfolding tw by simp
      have pop: "py_pop gts (length (takeWhile P gts)) = Inr gts'"
        unfolding gts'_def by (rule py_pop_first[OF lt])
      have "set gts' \<subseteq> set gts" unfolding gts'_def by (rule spec_working_subset)
      then have ua': "\<forall>d\<in>set dets. \<forall>g\<in>set gts'. ua d g \<noteq> 0"
        using Cons.prems(2) by blast
      have "match_loop ia ua rnd dets thr ks gts' (fps @ [0]) (tps @ [1]) =
         (case spec_match iou thr ds gts' of
            (labels, rest) \<Rightarrow> Inr ((fps @ [0]) @ fp_flags labels, (tps @ [1]) @ tp_flags labels, rest))"
        unfolding iou_def ds_def by (rule Cons.IH[OF ks ua'])
      then show ?thesis
        using nlow False get ious mx am pop by (simp add: flags_snoc split: prod.splits)
    qed
  qed
qed

lemma valid_argsort_bound: "valid_argsort xs idx \<Longrightarrow> \<forall>i\<in>set idx. i < length xs"
  by (simp add: valid_argsort_def list_all_iff)

lemma valid_argsort_set:
  assumes "valid_argsort xs idx"
  shows "set idx = {..<length xs}"
proof -
  have sub: "set idx \<subseteq> {..<length xs}"
    using valid_argsort_bound[OF assms] by auto
  have "card (set idx) = length xs"
    using assms by (simp add: valid_argsort_def distinct_card)
  then show ?thesis
    using sub by (simp add: card_subset_eq)
qed

lemma valid_argsort_descending:
  assumes "valid_argsort (map uminus xs) idx"
  shows "sorted_wrt (\<lambda>a b. b \<le> a) (map (\<lambda>k. xs ! k) idx)"
proof -
  have b: "\<forall>i\<in>set idx. i < length xs"
    using valid_argsort_bound[OF assms] by simp
  have "sorted (map (\<lambda>i. map uminus xs ! i) idx)"
    using assms by (simp add: valid_argsort_def)
  then have "sorted_wrt (\<lambda>i j. map uminus xs ! i \<le> map uminus xs ! j) idx"
    by (simp add: sorted_wrt_map)
  then have "sorted_wrt (\<lambda>i j. xs ! j \<le> xs ! i) idx"
    by (rule sorted_wrt_mono_rel[rotated]) (use b in auto)
  then show ?thesis by (simp add: sorted_wrt_map)
qed

lemma argsort_mset:
  assumes "valid_argsort xs order"
  shows "mset order = mset [0..<length xs]"
proof -
  have "set order = {..<length xs}"
    by (rule valid_argsort_set[OF assms])
  also have "\<dots> = set [0..<length xs]"
    by (simp add: atLeast0LessThan)
  finally have s: "set order = set [0..<length xs]" .
  have d: "distinct order" using assms by (simp add: valid_argsort_def)
  have d': "distinct [0..<length xs]" by simp
  show ?thesis
    by (rule iffD1[OF set_eq_iff_mset_eq_distinct[OF d d'] s])
qed

lemma read_through:
  assumes "valid_argsort xs order" and "length ys = length xs"
  shows "mset (map (\<lambda>k. ys ! k) order) = mset ys"
proof -
  have "mset (map (\<lambda>k. ys ! k) order) = image_mset (\<lambda>k. ys ! k) (mset order)"
    by simp
  also have "\<dots> = image_mset (\<lambda>k. ys ! k) (mset [0..<length ys])"
    using argsort_mset[OF assms(1)] assms(2) by simp
  also have "\<dots> = mset (map (\<lambda>k. ys ! k) [0..<length ys])"
    by simp
  also have "\<dots> = mset ys"
    by (simp add: map_nth)
  finally show ?thesis .
qed

lemma map_err_py_get:
  "\<forall>i\<in>set idx. i < length xs \<Longrightarrow> map_err (py_get xs) idx = Inr (map (\<lambda>i. xs ! i) idx)"
  by (induction idx) (simp_all add: py_get_def)

lemma map_err_length: "map_err f xs = Inr ys \<Longrightarrow> length ys = length xs"
  by (simp add: map_err_Inr_iff)

lemma convert_format_length: "convert_format boxes = Inr ps \<Longrightarrow> length ps = length boxes"
  by (simp add: convert_format_def map_err_length)

lemma convert_format_take:
  "convert_format boxes = Inr ps \<Longrightarrow> convert_format (take n boxes) = Inr (take n ps)"
  by (simp add: convert_format_def map_err_Inr_iff)

lemma sum_tp_flags: "sum_list (tp_flags labels) = int (length (filter (\<lambda>l. l) labels))"
  by (induction labels) (simp_all add: tp_flags_def)

lemma sum_flags: "sum_list (tp_flags labels) + sum_list (fp_flags labels) = int (length labels)"
  by (induction labels) (simp_all add: tp_flags_def fp_flags_def)

lemma flags_length: "length (tp_flags labels) = length labels" "length (fp_flags labels) = length labels"
  by (simp_all add: tp_flags_def fp_flags_def)

lemma flags_one: "list_all2 (\<lambda>t f. t + f = 1) (tp_flags labels) (fp_flags labels)"
  by (induction labels) (simp_all add: tp_flags_def fp_flags_def)

lemma spec_match_facts:
  "spec_match iou thr ds working = (labels, rest) \<Longrightarrow>
     length labels = length ds \<and> subseq rest working \<and>
     length rest + length (filter (\<lambda>l. l) labels) = length working \<and>
     (working = [] \<longrightarrow> True \<notin> set labels)"
proof (induction ds arbitrary: working labels rest)
  case Nil
  then show ?case by simp
next
  case (Cons d ds)
  define M where "M = Max (set (map (iou d) working))"
  define P where "P = (\<lambda>g. iou d g \<noteq> M)"
  define working' where "working' = takeWhile P working @ tl (dropWhile P working)"
  have sm: "spec_match iou thr (d # ds) working =
     (if working = [] \<or> M < thr
      then (case spec_match iou thr ds working of (labels, rest) \<Rightarrow> (False # labels, rest))
      else (case spec_match iou thr ds working' of (labels, rest) \<Rightarrow> (True # labels, rest)))"
    unfolding M_def working'_def P_def by (simp only: spec_match.simps Let_def)
  show ?case
  proof (cases "working = [] \<or> M < thr")
    case True
    with Cons.prems sm obtain ls where ls: "spec_match iou thr ds working = (ls, rest)"
      "labels = False # ls"
      by (auto split: prod.splits)
    from Cons.IH[OF ls(1)] ls(2) show ?thesis by simp
  next
    case False
    with Cons.prems sm obtain ls where ls: "spec_match iou thr ds working' = (ls, rest)"
      "labels = True # ls"
      by (auto split: prod.splits)
    have ne: "working \<noteq> []" using False by simp
    then have "M \<in> set (map (iou d) working)" unfolding M_def by (intro Max_in) simp_all
    then have "\<exists>g\<in>set working. \<not> P g" by (auto simp: P_def)
    then have dw: "dropWhile P working \<noteq> []" by simp
    have "length working = length (takeWhile P working) + length (dropWhile P working)"
      by (metis length_append takeWhile_dropWhile_id)
    then have len: "Suc (length working') = length working"
      using dw by (simp add: working'_def)
    have "\<And>ys :: polygon list. subseq (tl ys) ys"
      by (case_tac ys) auto
    then have "subseq (tl (dropWhile P working)) (dropWhile P working)" .
    then have "subseq working' (takeWhile P working @ dropWhile P working)"
      unfolding working'_def by (simp only: subseq_append')
    then have sub: "subseq working' working" by simp
    from Cons.IH[OF ls(1)] have "subseq rest working'" by simp
    then have "subseq rest working" using sub by (rule subseq_order.trans)
    then show ?thesis
      using Cons.IH[OF ls(1)] ls(2) len ne by simp
  qed
qed

lemma caluclate_tp_fp_refines:
  assumes va: "valid_argsort (map uminus det_score) (argsort (map uminus det_score))"
    and len: "length det_score \<le> length boxes"
    and cd: "convert_format boxes = Inr dets"
    and cg: "convert_format gt_boxes = Inr gts"
    and ua: "\<forall>d\<in>set dets. \<forall>g\<in>set gts. ua d g \<noteq> 0"
    and key: "result_stat thr = Some b"
    and sm: "spec_match (rounded_iou ia ua rnd) (thr_cmp thr)
               (map (\<lambda>k. dets ! k) (argsort (map uminus det_score))) gts = (labels, rest)"
  shows "caluclate_tp_fp argsort ia ua rnd thr_cmp (Some boxes) det_score gt_boxes result_stat thr =
     Inr (result_stat(thr \<mapsto>
            b\<lparr>score := score b @ map (\<lambda>k. det_score ! k) (argsort (map uminus det_score)),
              fp := fp b @ fp_flags labels, tp := tp b @ tp_flags labels,
              gt := gt b + int (length gt_boxes)\<rparr>))"
proof -
  define order where "order = argsort (map uminus det_score)"
  have bd: "\<forall>i\<in>set order. i < length det_score"
    using valid_argsort_bound[OF va] by (simp add: order_def)
  have sc: "map_err (py_get det_score) order = Inr (map (\<lambda>k. det_score ! k) order)"
    by (rule map_err_py_get[OF bd])
  have "\<forall>k\<in>set order. k < length dets"
    using bd len convert_format_length[OF cd] by auto
  then have ml: "match_loop ia ua rnd dets (thr_cmp thr) order gts [] [] =
      Inr ([] @ fp_flags labels, [] @ tp_flags labels, rest)"
    using match_loop_refines[where ks = order and dets = dets and gts = gts and ua = ua
        and ia = ia and rnd = rnd and thr = "thr_cmp thr" and fps = "[]" and tps = "[]"] ua sm
    by (simp add: order_def)
  show ?thesis
    using sc cd cg ml key
    by (simp add: caluclate_tp_fp_def order_def[symmetric] stat_add_def Let_def)
qed

lemma caluclate_tp_fp_appends:
  assumes "caluclate_tp_fp argsort ia ua rnd thr_cmp det_boxes det_score gt_boxes result_stat thr = Inr result_stat'"
  shows "\<exists>b labels s. result_stat thr = Some b \<and> length s = length labels \<and>
     (det_boxes = None \<longrightarrow> labels = []) \<and>
     (det_boxes \<noteq> None \<longrightarrow> length labels = length (argsort (map uminus det_score)) \<and>
        (\<exists>n. convert_format gt_boxes = Inr n \<and> length (filter (\<lambda>l. l) labels) \<le> length n)) \<and>
     result_stat' = result_stat(thr \<mapsto>
        b\<lparr>score := score b @ s, fp := fp b @ fp_flags labels, tp := tp b @ tp_flags labels,
          gt := gt b + int (length gt_boxes)\<rparr>)"
proof (cases det_boxes)
  case None
  with assms obtain b where "result_stat thr = Some b"
    "result_stat' = result_stat(thr \<mapsto> b\<lparr>gt := gt b + int (length gt_boxes)\<rparr>)"
    by (auto simp: caluclate_tp_fp_def stat_add_def Let_def split: option.splits)
  then show ?thesis
    using None by (intro exI[of _ b] exI[of _ "[]"]) (simp add: fp_flags_def tp_flags_def)
next
  case (Some boxes)
  define order where "order = argsort (map uminus det_score)"
  from assms Some obtain s dets gts fps tps rest where
    s: "map_err (py_get det_score) order = Inr s"
    and "convert_format boxes = Inr dets" and cg: "convert_format gt_boxes = Inr gts"
    and ml: "match_loop ia ua rnd dets (thr_cmp thr) order gts [] [] = Inr (fps, tps, rest)"
    and sa: "stat_add result_stat thr (Some s) fps tps (int (length gt_boxes)) = Inr result_stat'"
    by (auto simp: caluclate_tp_fp_def Let_def order_def split: sum.splits prod.splits)
  from match_loop_labels[OF ml] obtain labels where
    l: "length labels = length order" "fps = fp_flags labels" "tps = tp_flags labels"
    "length rest + length (filter (\<lambda>l. l) labels) = length gts"
    by auto
  from sa obtain b where "result_stat thr = Some b"
    "result_stat' = result_stat(thr \<mapsto>
        b\<lparr>score := score b @ s, fp := fp b @ fps, tp := tp b @ tps,
          gt := gt b + int (length gt_boxes)\<rparr>)"
    by (auto simp: stat_add_def split: option.splits)
  then show ?thesis
    using Some l map_err_length[OF s] cg
    by (intro exI[of _ b] exI[of _ labels] exI[of _ s]) (simp add: order_def)
qed

lemma match_loop_append:
  "match_loop ia ua rnd dets thr (ks1 @ ks2) gts fps tps =
     (case match_loop ia ua rnd dets thr ks1 gts fps tps of
        Inl e \<Rightarrow> Inl e
      | Inr (f, t, g) \<Rightarrow> match_loop ia ua rnd dets thr ks2 g f t)"
  by (induction ks1 arbitrary: gts fps tps) (simp_all split: sum.splits)

lemma match_loop_index_error:
  assumes bad: "\<exists>k\<in>set ks. \<not> k < length dets"
    and ua: "\<forall>d\<in>set dets. \<forall>g\<in>set gts. ua d g \<noteq> 0"
  shows "match_loop ia ua rnd dets thr ks gts [] [] = Inl IndexError"
proof -
  from split_list_first_prop[OF bad] obtain ys k zs where
    ks: "ks = ys @ k # zs" and k: "\<not> k < length dets" and ys: "\<forall>y\<in>set ys. \<not> \<not> y < length dets"
    by blast
  have "\<forall>y\<in>set ys. y < length dets" using ys by simp
  from match_loop_refines[where ia = ia and rnd = rnd and thr = thr and fps = "[]"
      and tps = "[]", OF this ua]
  obtain f t g where "match_loop ia ua rnd dets thr ys gts [] [] = Inr (f, t, g)"
    by (auto split: prod.splits)
  then show ?thesis
    using k by (simp add: ks match_loop_append py_get_def)
qed

lemma accumulated_invariant:
  "accumulated argsort ia ua rnd thr_cmp rs \<Longrightarrow>
   \<forall>t b. rs t = Some b \<longrightarrow>
     length (score b) = length (tp b) \<and> list_all2 (\<lambda>t f. t + f = 1) (tp b) (fp b)"
proof (induction rule: accumulated.induct)
  case (start result_stat)
  show ?case
  proof (intro allI impI)
    fix t b
    assume "result_stat t = Some b"
    then have "b = empty_bucket"
      using start by (auto simp: ran_def)
    then show "length (score b) = length (tp b) \<and> list_all2 (\<lambda>t f. t + f = 1) (tp b) (fp b)"
      by (simp add: empty_bucket_def)
  qed
next
  case (call result_stat det_boxes det_score gt_boxes iou_thresh result_stat')
  from caluclate_tp_fp_appends[OF call.hyps(2)] obtain b labels s where
    b: "result_stat iou_thresh = Some b" and ls: "length s = length labels"
    and rs': "result_stat' = result_stat(iou_thresh \<mapsto>
        b\<lparr>score := score b @ s, fp := fp b @ fp_flags labels, tp := tp b @ tp_flags labels,
          gt := gt b + int (length gt_boxes)\<rparr>)"
    by blast
  have old: "length (score b) = length (tp b)" "list_all2 (\<lambda>t f. t + f = 1) (tp b) (fp b)"
    using call.IH b by auto
  have "list_all2 (\<lambda>t f. t + f = 1) (tp b @ tp_flags labels) (fp b @ fp_flags labels)"
    using old(2) flags_one by (rule list_all2_appendI)
  then show ?case
    using call.IH old ls by (auto simp: rs' flags_length)
qed

text \<open>
  C7. Whatever calls of \<^verbatim>\<open>caluclate_tp_fp\<close> have run on buckets that started empty,
  every bucket has score, tp and fp sequences of one length, and at every index the tp
  flag and the fp flag add up to 1.
\<close>

theorem stats_invariant:
  assumes "accumulated argsort ia ua rnd thr_cmp result_stat" and "result_stat iou_thresh = Some b"
  shows "length (score b) = length (tp b) \<and> length (tp b) = length (fp b) \<and>
         (\<forall>i<length (tp b). tp b ! i + fp b ! i = 1)"
  using accumulated_invariant[OF assms(1)] assms(2)
  by (auto simp: list_all2_conv_all_nth)

text \<open>
  C8. For a frame with as many scores as boxes that the matcher processes, the flags it
  appends to the bucket satisfy: the tp flags sum to at most the number of ground-truth
  boxes, tp and fp flags together sum to the number of detections, and the gt count grows
  by the number of ground-truth boxes.
\<close>

theorem frame_counts:
  assumes "caluclate_tp_fp argsort ia ua rnd thr_cmp (Some boxes) det_score gt_boxes result_stat iou_thresh
             = Inr result_stat'"
    and "result_stat iou_thresh = Some b"
    and "valid_argsort (map uminus det_score) (argsort (map uminus det_score))"
    and "length boxes = length det_score"
  shows "\<exists>b' tp_frame fp_frame.
           result_stat' iou_thresh = Some b' \<and>
           tp b' = tp b @ tp_frame \<and> fp b' = fp b @ fp_frame \<and>
           sum_list tp_frame \<le> int (length gt_boxes) \<and>
           sum_list tp_frame + sum_list fp_frame = int (length boxes) \<and>
           gt b' = gt b + int (length gt_boxes)"
proof -
  from caluclate_tp_fp_appends[OF assms(1)] assms(2) obtain labels s gts where
    l: "length labels = length (argsort (map uminus det_score))"
    and g: "convert_format gt_boxes = Inr gts" "length (filter (\<lambda>l. l) labels) \<le> length gts"
    and rs': "result_stat' = result_stat(iou_thresh \<mapsto>
        b\<lparr>score := score b @ s, fp := fp b @ fp_flags labels, tp := tp b @ tp_flags labels,
          gt := gt b + int (length gt_boxes)\<rparr>)"
    by auto
  have "length labels = length boxes"
    using l assms(3,4) by (simp add: valid_argsort_def)
  moreover have "length gts = length gt_boxes"
    by (rule convert_format_length[OF g(1)])
  ultimately have "sum_list (tp_flags labels) \<le> int (length gt_boxes)"
    "sum_list (tp_flags labels) + sum_list (fp_flags labels) = int (length boxes)"
    using g(2) sum_flags[of labels] by (simp_all add: sum_tp_flags)
  then show ?thesis
    by (simp add: rs')
qed

text \<open>
  C10. With \<^verbatim>\<open>det_boxes = None\<close> the call raises nothing (the bucket of the threshold
  being there), leaves the score, tp and fp sequences of the bucket as they are, and adds
  the number of ground-truth boxes of the frame to the gt count.
\<close>

theorem no_detections_frame:
  assumes "result_stat iou_thresh = Some b"
  shows "caluclate_tp_fp argsort ia ua rnd thr_cmp None det_score gt_boxes result_stat iou_thresh =
           Inr (result_stat(iou_thresh \<mapsto> b\<lparr>gt := gt b + int (length gt_boxes)\<rparr>))"
  using assms by (simp add: caluclate_tp_fp_def stat_add_def)

text \<open>
  C4. On a frame with as many scores as boxes, well-formed boxes and no zero union area,
  the matcher takes every detection with its score once, in an order in which the scores
  never increase, and the flags it appends are those of \<open>spec_match\<close> on the IoU that
  \<^verbatim>\<open>compute_iou\<close> returns (the \<^verbatim>\<open>float32\<close> ratio) and the threshold as the
  comparison of line 116 reads it: false-positive exactly when the working list is empty or
  the largest IoU against it is below the threshold, otherwise true-positive with the first
  box reaching the largest IoU removed. The final working list is a subsequence of the
  ground truth, shorter by one box for each true positive, and without ground truth every
  detection is false-positive.
\<close>

theorem matcher_greedy:
  assumes "order = argsort (map uminus det_score)"
    and "valid_argsort (map uminus det_score) order"
    and "length boxes = length det_score"
    and "convert_format boxes = Inr dets"
    and "convert_format gt_boxes = Inr gts"
    and "\<forall>d\<in>set dets. \<forall>g\<in>set gts. ua d g \<noteq> 0"
    and "result_stat iou_thresh = Some b"
    and "spec_match (rounded_iou ia ua rnd) (thr_cmp iou_thresh)
           (map (\<lambda>k. dets ! k) order) gts = (labels, rest)"
  shows "caluclate_tp_fp argsort ia ua rnd thr_cmp (Some boxes) det_score gt_boxes result_stat
           iou_thresh =
           Inr (result_stat(iou_thresh \<mapsto>
                  b\<lparr>score := score b @ map (\<lambda>k. det_score ! k) order,
                    fp := fp b @ fp_flags labels, tp := tp b @ tp_flags labels,
                    gt := gt b + int (length gt_boxes)\<rparr>)) \<and>
         mset (map (\<lambda>k. (dets ! k, det_score ! k)) order) = mset (zip dets det_score) \<and>
         sorted_wrt (\<lambda>a b. b \<le> a) (map (\<lambda>k. det_score ! k) order) \<and>
         length labels = length boxes \<and>
         subseq rest gts \<and>
         length rest + length (filter (\<lambda>l. l) labels) = length gts \<and>
         (gt_boxes = [] \<longrightarrow> True \<notin> set labels)"
proof -
  have va: "valid_argsort (map uminus det_score) (argsort (map uminus det_score))"
    using assms(1,2) by simp
  have ld: "length dets = length det_score"
    using convert_format_length[OF assms(4)] assms(3) by simp
  have "mset (map (\<lambda>k. zip dets det_score ! k) order) = mset (zip dets det_score)"
    using assms(2) by (rule read_through) (simp add: ld)
  moreover have "map (\<lambda>k. zip dets det_score ! k) order
                   = map (\<lambda>k. (dets ! k, det_score ! k)) order"
    using valid_argsort_bound[OF assms(2)] ld by simp
  ultimately have once: "mset (map (\<lambda>k. (dets ! k, det_score ! k)) order)
                           = mset (zip dets det_score)"
    by simp
  have srt: "sorted_wrt (\<lambda>a b. b \<le> a) (map (\<lambda>k. det_score ! k) order)"
    by (rule valid_argsort_descending[OF assms(2)])
  have call: "caluclate_tp_fp argsort ia ua rnd thr_cmp (Some boxes) det_score gt_boxes result_stat
           iou_thresh =
           Inr (result_stat(iou_thresh \<mapsto>
                  b\<lparr>score := score b @ map (\<lambda>k. det_score ! k) order,
                    fp := fp b @ fp_flags labels, tp := tp b @ tp_flags labels,
                    gt := gt b + int (length gt_boxes)\<rparr>))"
    unfolding assms(1)
    by (rule caluclate_tp_fp_refines[where argsort = argsort and det_score = det_score and ua = ua
          and ia = ia and rnd = rnd and thr_cmp = thr_cmp
          and result_stat = result_stat and thr = iou_thresh, OF va _ assms(4,5,6,7)])
       (use assms(3,8) in \<open>simp_all add: assms(1)\<close>)
  have f: "length labels = length order" "subseq rest gts"
    "length rest + length (filter (\<lambda>l. l) labels) = length gts"
    "gts = [] \<longrightarrow> True \<notin> set labels"
    using spec_match_facts[OF assms(8)] by simp_all
  have "length order = length boxes"
    using assms(2,3) by (simp add: valid_argsort_def)
  moreover have "gt_boxes = [] \<longrightarrow> gts = []"
    using convert_format_length[OF assms(5)] by (metis length_0_conv)
  ultimately show ?thesis
    using once srt call f by simp
qed

text \<open>
  C9 (as the code has it). The matcher does not compare the number of boxes with the number
  of scores. With more scores than boxes the loop reaches an index without a box and the
  call raises IndexError, before the dict is written. With fewer scores than boxes it raises
  nothing: the boxes from index \<^verbatim>\<open>len(det_score)\<close> on are never read, and the
  result is that of the call on the first \<^verbatim>\<open>len(det_score)\<close> boxes.
\<close>

theorem length_mismatch:
  assumes "valid_argsort (map uminus det_score) (argsort (map uminus det_score))"
    and "convert_format boxes = Inr dets"
    and "convert_format gt_boxes = Inr gts"
    and "\<forall>d\<in>set dets. \<forall>g\<in>set gts. ua d g \<noteq> 0"
    and "result_stat iou_thresh = Some b"
  shows "(length boxes < length det_score \<longrightarrow>
            caluclate_tp_fp argsort ia ua rnd thr_cmp (Some boxes) det_score gt_boxes result_stat iou_thresh
              = Inl IndexError) \<and>
         (length det_score < length boxes \<longrightarrow>
            (\<exists>result_stat'.
               caluclate_tp_fp argsort ia ua rnd thr_cmp (Some boxes) det_score gt_boxes result_stat iou_thresh
                 = Inr result_stat' \<and>
               caluclate_tp_fp argsort ia ua rnd thr_cmp (Some (take (length det_score) boxes)) det_score
                   gt_boxes result_stat iou_thresh
                 = Inr result_stat'))"
proof (intro conjI impI)
  define order where "order = argsort (map uminus det_score)"
  have bd: "\<forall>i\<in>set order. i < length det_score"
    using valid_argsort_bound[OF assms(1)] by (simp add: order_def)
  have so: "set order = {..<length det_score}"
    using valid_argsort_set[OF assms(1)] by (simp add: order_def)
  have ld: "length dets = length boxes" by (rule convert_format_length[OF assms(2)])
  {
    assume "length boxes < length det_score"
    then have "length boxes \<in> set order" using so by simp
    then have "\<exists>k\<in>set order. \<not> k < length dets" using ld by auto
    then have "match_loop ia ua rnd dets (thr_cmp iou_thresh) order gts [] [] = Inl IndexError"
      using assms(4) by (rule match_loop_index_error)
    then show "caluclate_tp_fp argsort ia ua rnd thr_cmp (Some boxes) det_score gt_boxes result_stat iou_thresh
              = Inl IndexError"
      using map_err_py_get[OF bd] assms(2,3)
      by (simp add: caluclate_tp_fp_def order_def[symmetric] Let_def)
  }
  {
    assume less: "length det_score < length boxes"
    define n where "n = length det_score"
    obtain labels rest where sm: "spec_match (rounded_iou ia ua rnd) (thr_cmp iou_thresh)
               (map (\<lambda>k. dets ! k) order) gts = (labels, rest)"
      by (cases "spec_match (rounded_iou ia ua rnd) (thr_cmp iou_thresh)
                   (map (\<lambda>k. dets ! k) order) gts")
    have same: "map (\<lambda>k. take n dets ! k) order = map (\<lambda>k. dets ! k) order"
      using bd by (simp add: n_def)
    have sm': "spec_match (rounded_iou ia ua rnd) (thr_cmp iou_thresh)
               (map (\<lambda>k. take n dets ! k) (argsort (map uminus det_score))) gts = (labels, rest)"
      using sm unfolding order_def[symmetric] same .
    have ua': "\<forall>d\<in>set (take n dets). \<forall>g\<in>set gts. ua d g \<noteq> 0"
      using assms(4) by (auto dest: in_set_takeD)
    have c1: "caluclate_tp_fp argsort ia ua rnd thr_cmp (Some boxes) det_score gt_boxes result_stat iou_thresh =
       Inr (result_stat(iou_thresh \<mapsto>
            b\<lparr>score := score b @ map (\<lambda>k. det_score ! k) (argsort (map uminus det_score)),
              fp := fp b @ fp_flags labels, tp := tp b @ tp_flags labels,
              gt := gt b + int (length gt_boxes)\<rparr>))"
      by (rule caluclate_tp_fp_refines[where argsort = argsort and det_score = det_score and ua = ua
          and ia = ia and rnd = rnd and thr_cmp = thr_cmp
          and result_stat = result_stat and thr = iou_thresh, OF assms(1) _ assms(2,3,4,5)])
         (use less sm in \<open>simp_all add: order_def\<close>)
    have c2: "caluclate_tp_fp argsort ia ua rnd thr_cmp (Some (take n boxes)) det_score gt_boxes result_stat iou_thresh =
       Inr (result_stat(iou_thresh \<mapsto>
            b\<lparr>score := score b @ map (\<lambda>k. det_score ! k) (argsort (map uminus det_score)),
              fp := fp b @ fp_flags labels, tp := tp b @ tp_flags labels,
              gt := gt b + int (length gt_boxes)\<rparr>))"
      by (rule caluclate_tp_fp_refines[where argsort = argsort and det_score = det_score and ua = ua
          and ia = ia and rnd = rnd and thr_cmp = thr_cmp
          and result_stat = result_stat and thr = iou_thresh, OF assms(1) _ convert_format_take[OF assms(2)] assms(3) ua' assms(5)])
         (use less sm' in \<open>simp_all add: n_def\<close>)
    show "\<exists>result_stat'.
               caluclate_tp_fp argsort ia ua rnd thr_cmp (Some boxes) det_score gt_boxes result_stat iou_thresh
                 = Inr result_stat' \<and>
               caluclate_tp_fp argsort ia ua rnd thr_cmp (Some (take (length det_score) boxes)) det_score
                   gt_boxes result_stat iou_thresh
                 = Inr result_stat'"
      using c1 c2 by (simp add: n_def)
  }
qed

section \<open>Instances on the small frame\<close>

lemma box_2_polygon_A: "box_2_polygon box_A = Inr poly_A"
  by (simp add: box_2_polygon_def corner_xy_def py_get_def box_A_def poly_A_def)

lemma box_2_polygon_B: "box_2_polygon box_B = Inr poly_B"
  by (simp add: box_2_polygon_def corner_xy_def py_get_def box_B_def poly_B_def)

lemma convert_AB: "convert_format [box_A, box_B] = Inr [poly_A, poly_B]"
  by (simp add: convert_format_def box_2_polygon_A box_2_polygon_B)

lemma convert_A: "convert_format [box_A] = Inr [poly_A]"
  by (simp add: convert_format_def box_2_polygon_A)

lemma poly_A_B: "poly_A \<noteq> poly_B"
  by (simp add: poly_A_def poly_B_def)

lemma sq_ua_nonzero: "sq_ua p q \<noteq> 0"
  by (simp add: sq_ua_def)

lemma stat0_key: "stat0 (1/2) = Some empty_bucket"
  by (simp add: stat0_def)

lemma frame_AB:
  "caluclate_tp_fp (\<lambda>xs. [0, 1]) sq_ia sq_ua as_is as_is (Some [box_A, box_B]) [9/10, 8/10] [box_A] stat0 (1/2)
     = Inr (stat0(1/2 \<mapsto> bucket_AB))"
  using poly_A_B
  by (simp add: caluclate_tp_fp_def convert_AB convert_A py_get_def compute_iou_def iou_of_def
      np_max_def np_argmax_def py_pop_def stat_add_def sq_ia_def sq_ua_def as_is_def rounded_iou_def stat0_key
      empty_bucket_def bucket_AB_def)

lemma valid_01: "valid_argsort (map uminus [9/10, 8/10]) [0, 1]"
  by (simp add: valid_argsort_def)

text \<open>The frame of two detections and one ground-truth box, for C4.\<close>

theorem matcher_greedy_witness:
  "caluclate_tp_fp (\<lambda>xs. [0, 1]) sq_ia sq_ua as_is as_is (Some [box_A, box_B]) [9/10, 8/10] [box_A] stat0 (1/2)
     = Inr (stat0(1/2 \<mapsto> bucket_AB)) \<and>
   spec_match (rounded_iou sq_ia sq_ua as_is) (as_is (1/2)) [poly_A, poly_B] [poly_A] = ([True, False], [])"
proof -
  have h8: "spec_match (rounded_iou sq_ia sq_ua as_is) (as_is (1/2))
              (map (\<lambda>k. [poly_A, poly_B] ! k) [0, 1]) [poly_A] = ([True, False], [])"
    using poly_A_B by (simp add: sq_ia_def sq_ua_def as_is_def rounded_iou_def)
  have h6: "\<forall>d\<in>set [poly_A, poly_B]. \<forall>g\<in>set [poly_A]. sq_ua d g \<noteq> 0"
    by (simp add: sq_ua_nonzero)
  have "caluclate_tp_fp (\<lambda>xs. [0, 1]) sq_ia sq_ua as_is as_is (Some [box_A, box_B]) [9/10, 8/10] [box_A]
          stat0 (1/2) =
        Inr (stat0(1/2 \<mapsto>
               empty_bucket\<lparr>score := score empty_bucket @ map (\<lambda>k. [9/10, 8/10] ! k) [0, 1],
                 fp := fp empty_bucket @ fp_flags [True, False],
                 tp := tp empty_bucket @ tp_flags [True, False],
                 gt := gt empty_bucket + int (length [box_A])\<rparr>))"
    using matcher_greedy[where order = "[0, 1]" and argsort = "\<lambda>xs. [0, 1]"
        and det_score = "[9/10, 8/10]" and boxes = "[box_A, box_B]" and dets = "[poly_A, poly_B]"
        and gt_boxes = "[box_A]" and gts = "[poly_A]" and ua = sq_ua and ia = sq_ia and rnd = as_is and thr_cmp = as_is
        and result_stat = stat0 and iou_thresh = "1/2" and b = empty_bucket
        and labels = "[True, False]" and rest = "[]",
        OF refl valid_01 _ convert_AB convert_A h6 stat0_key h8]
    by simp
  then show ?thesis
    using h8 by (simp add: empty_bucket_def fp_flags_def tp_flags_def bucket_AB_def)
qed

theorem frame_counts_witness:
  "\<exists>b' tp_frame fp_frame.
     (stat0(1/2 \<mapsto> bucket_AB)) (1/2) = Some b' \<and>
     tp b' = tp empty_bucket @ tp_frame \<and> fp b' = fp empty_bucket @ fp_frame \<and>
     sum_list tp_frame \<le> int (length [box_A]) \<and>
     sum_list tp_frame + sum_list fp_frame = int (length [box_A, box_B]) \<and>
     gt b' = gt empty_bucket + int (length [box_A])"
  using frame_counts[where argsort = "\<lambda>xs. [0, 1]", OF frame_AB stat0_key valid_01]
  by simp

theorem stats_invariant_witness:
  "accumulated (\<lambda>xs. [0, 1]) sq_ia sq_ua as_is as_is (stat0(1/2 \<mapsto> bucket_AB)) \<and>
   length (score bucket_AB) = length (tp bucket_AB) \<and>
   length (tp bucket_AB) = length (fp bucket_AB) \<and>
   tp bucket_AB ! 0 + fp bucket_AB ! 0 = 1 \<and> tp bucket_AB ! 1 + fp bucket_AB ! 1 = 1"
proof -
  have "ran stat0 \<subseteq> {empty_bucket}" by (simp add: stat0_def)
  then have "accumulated (\<lambda>xs. [0, 1]) sq_ia sq_ua as_is as_is stat0" by (rule accumulated.start)
  then have acc: "accumulated (\<lambda>xs. [0, 1]) sq_ia sq_ua as_is as_is (stat0(1/2 \<mapsto> bucket_AB))"
    using frame_AB by (rule accumulated.call)
  have "(stat0(1/2 \<mapsto> bucket_AB)) (1/2) = Some bucket_AB" by simp
  from stats_invariant[OF acc this] acc show ?thesis
    by (simp add: bucket_AB_def)
qed

theorem no_detections_frame_witness:
  "caluclate_tp_fp (\<lambda>xs. []) sq_ia sq_ua as_is as_is None [] [box_A] stat0 (1/2)
     = Inr (stat0(1/2 \<mapsto> \<lparr>score = [], fp = [], tp = [], gt = 1\<rparr>))"
  using no_detections_frame[where result_stat = stat0 and iou_thresh = "1/2" and b = empty_bucket
      and argsort = "\<lambda>xs. []" and ia = sq_ia and ua = sq_ua and rnd = as_is and thr_cmp = as_is and det_score = "[]"
      and gt_boxes = "[box_A]", OF stat0_key]
  by (simp add: empty_bucket_def)

lemma valid_0: "valid_argsort (map uminus [9/10]) [0]"
  by (simp add: valid_argsort_def)

theorem length_mismatch_witness:
  "caluclate_tp_fp (\<lambda>xs. [0, 1]) sq_ia sq_ua as_is as_is (Some [box_A]) [9/10, 8/10] [box_A] stat0 (1/2)
     = Inl IndexError \<and>
   (\<exists>result_stat'.
      caluclate_tp_fp (\<lambda>xs. [0]) sq_ia sq_ua as_is as_is (Some [box_A, box_B]) [9/10] [box_A] stat0 (1/2)
        = Inr result_stat' \<and>
      caluclate_tp_fp (\<lambda>xs. [0]) sq_ia sq_ua as_is as_is (Some [box_A]) [9/10] [box_A] stat0 (1/2)
        = Inr result_stat')"
proof -
  have u1: "\<forall>d\<in>set [poly_A]. \<forall>g\<in>set [poly_A]. sq_ua d g \<noteq> 0"
    and u2: "\<forall>d\<in>set [poly_A, poly_B]. \<forall>g\<in>set [poly_A]. sq_ua d g \<noteq> 0"
    by (simp_all add: sq_ua_nonzero)
  show ?thesis
    using length_mismatch[where argsort = "\<lambda>xs. [0, 1]" and det_score = "[9/10, 8/10]"
        and ua = sq_ua and ia = sq_ia and rnd = as_is and thr_cmp = as_is and result_stat = stat0 and iou_thresh = "1/2",
        OF valid_01 convert_A convert_A u1 stat0_key]
      length_mismatch[where argsort = "\<lambda>xs. [0]" and det_score = "[9/10]"
        and ua = sq_ua and ia = sq_ia and rnd = as_is and thr_cmp = as_is and result_stat = stat0 and iou_thresh = "1/2",
        OF valid_0 convert_AB convert_A u2 stat0_key]
    by simp
qed

text \<open>
  C9 as the specification states it fails: two boxes with one score raise no error, and
  the second box is dropped without notice.
\<close>

theorem fewer_scores_no_error:
  "caluclate_tp_fp (\<lambda>xs. [0]) sq_ia sq_ua as_is as_is (Some [box_A, box_B]) [9/10] [box_A] stat0 (1/2)
     = Inr (stat0(1/2 \<mapsto> \<lparr>score = [9/10], fp = [0], tp = [1], gt = 1\<rparr>))"
  by (simp add: caluclate_tp_fp_def convert_AB convert_A py_get_def compute_iou_def iou_of_def
      np_max_def np_argmax_def py_pop_def stat_add_def sq_ia_def sq_ua_def as_is_def rounded_iou_def stat0_key
      empty_bucket_def)

section \<open>voc\_ap: results\<close>

lemma envelope_loop_length: "length (envelope_loop k m) = length m"
  by (induction k arbitrary: m) simp_all

lemma envelope_loop_step:
  "k < length m \<Longrightarrow>
   (\<forall>j. k \<le> j \<and> j < length m \<longrightarrow> envelope_loop k m ! j = m ! j) \<and>
   (\<forall>j<k. envelope_loop k m ! j = max (m ! j) (envelope_loop k m ! (j + 1)))"
proof (induction k arbitrary: m)
  case 0
  then show ?case by simp
next
  case (Suc k)
  define m' where "m' = m[k := max (m ! k) (m ! (k + 1))]"
  define r where "r = envelope_loop k m'"
  have lm: "length m' = length m" by (simp add: m'_def)
  have klt: "k < length m'" using Suc.prems lm by simp
  have IH1: "\<forall>j. k \<le> j \<and> j < length m' \<longrightarrow> r ! j = m' ! j"
    and IH2: "\<forall>j<k. r ! j = max (m' ! j) (r ! (j + 1))"
    using Suc.IH[OF klt] by (simp_all add: r_def)
  have req: "envelope_loop (Suc k) m = r" by (simp add: r_def m'_def)
  have "r ! k = m' ! k" using IH1 klt by blast
  moreover have "m' ! k = max (m ! k) (m ! (k + 1))"
    using Suc.prems by (simp add: m'_def)
  ultimately have rk: "r ! k = max (m ! k) (m ! (k + 1))" by (simp only:)
  have hi: "\<forall>j. Suc k \<le> j \<and> j < length m \<longrightarrow> r ! j = m ! j"
  proof (intro allI impI)
    fix j assume j: "Suc k \<le> j \<and> j < length m"
    then have "r ! j = m' ! j" using IH1 lm by simp
    moreover have "m' ! j = m ! j" using j by (simp add: m'_def)
    ultimately show "r ! j = m ! j" by (simp only:)
  qed
  have rk1: "r ! (k + 1) = m ! (k + 1)"
    using hi Suc.prems by simp
  have lo: "\<forall>j<Suc k. r ! j = max (m ! j) (r ! (j + 1))"
  proof (intro allI impI)
    fix j assume "j < Suc k"
    then consider "j = k" | "j < k" by linarith
    then show "r ! j = max (m ! j) (r ! (j + 1))"
    proof cases
      case 1
      then show ?thesis using rk rk1 by simp
    next
      case 2
      then have "m' ! j = m ! j" by (simp add: m'_def)
      moreover have "r ! j = max (m' ! j) (r ! (j + 1))"
        using IH2 2 by blast
      ultimately show ?thesis by (simp only:)
    qed
  qed
  show ?case unfolding req using hi lo by blast
qed

lemma suffix_max:
  assumes len: "length r = length m" and last: "r ! (length m - 1) = m ! (length m - 1)"
    and step: "\<forall>j. j + 1 < length m \<longrightarrow> r ! j = max (m ! j) (r ! (j + 1))"
    and j: "j < length (m :: real list)"
  shows "r ! j = Max (set (drop j m))"
proof -
  have "j \<le> length m - 1" using j by simp
  then show ?thesis
  proof (induction rule: inc_induct)
    case base
    have "m ! (length m - 1) # drop (Suc (length m - 1)) m = drop (length m - 1) m"
      using j by (intro Cons_nth_drop_Suc) simp
    moreover have "Suc (length m - 1) = length m" using j by simp
    ultimately have "drop (length m - 1) m = [m ! (length m - 1)]" by simp
    then show ?case using last by simp
  next
    case (step n)
    have n: "n + 1 < length m" using step.hyps by simp
    then have "drop n m = m ! n # drop (Suc n) m"
      by (simp add: Cons_nth_drop_Suc)
    moreover have "drop (Suc n) m \<noteq> []" using n by simp
    ultimately have "Max (set (drop n m)) = max (m ! n) (Max (set (drop (Suc n) m)))"
      by simp
    then show ?case
      using assms(3) n step.IH by simp
  qed
qed

lemma envelope_loop_Max:
  assumes "m \<noteq> []" and "j < length (m :: real list)"
  shows "envelope_loop (length m - 1) m ! j = Max (set (drop j m))"
proof -
  have k: "length m - 1 < length m" using assms(1) by simp
  note st = envelope_loop_step[OF k]
  show ?thesis
  proof (rule suffix_max)
    show "length (envelope_loop (length m - 1) m) = length m"
      by (rule envelope_loop_length)
    show "envelope_loop (length m - 1) m ! (length m - 1) = m ! (length m - 1)"
      using st k by simp
    show "\<forall>j. j + 1 < length m \<longrightarrow>
        envelope_loop (length m - 1) m ! j = max (m ! j) (envelope_loop (length m - 1) m ! (j + 1))"
      using st by auto
    show "j < length m" by (rule assms(2))
  qed
qed

lemma ap_loop_sum:
  "\<forall>i\<in>set is. 0 < i \<and> i < length mrec \<and> i < length mpre \<Longrightarrow>
   ap_loop mrec mpre is ap =
     Inr (ap + sum_list (map (\<lambda>i. (mrec ! i - mrec ! (i - 1)) * mpre ! i) is))"
proof (induction "is" arbitrary: ap)
  case Nil
  then show ?case by simp
next
  case (Cons i "is")
  have i: "i < length mrec" "i - 1 < length mrec" "i < length mpre"
    using Cons.prems by auto
  have "ap_loop mrec mpre is (ap + (mrec ! i - mrec ! (i - 1)) * mpre ! i) =
     Inr (ap + (mrec ! i - mrec ! (i - 1)) * mpre ! i +
          sum_list (map (\<lambda>i. (mrec ! i - mrec ! (i - 1)) * mpre ! i) is))"
    by (rule Cons.IH) (use Cons.prems in simp)
  then show ?case
    using i by (simp add: py_get_def)
qed

lemma i_list_sum:
  "sum_list (map f (i_list_of mrec)) =
     (\<Sum>i\<in>{i\<in>{1..<length mrec}. mrec ! i \<noteq> mrec ! (i - 1)}. f i)"
proof -
  have "distinct (i_list_of mrec)" by (simp add: i_list_of_def)
  then have "sum_list (map f (i_list_of mrec)) = sum f (set (i_list_of mrec))"
    by (rule sum_list_distinct_conv_sum_set)
  moreover have "set (i_list_of mrec) = {i\<in>{1..<length mrec}. mrec ! i \<noteq> mrec ! (i - 1)}"
    by (auto simp: i_list_of_def)
  ultimately show ?thesis by simp
qed

lemma changes_sum_all:
  "(\<Sum>i\<in>{i\<in>{1..<n}. (r :: real list) ! i \<noteq> r ! (i - 1)}. (r ! i - r ! (i - 1)) * (m ! i)) =
   (\<Sum>i\<in>{1..<n}. (r ! i - r ! (i - 1)) * ((m :: real list) ! i))"
  by (rule sum.mono_neutral_left) auto

lemma interval_bound:
  fixes r m :: "real list"
  assumes rr: "\<forall>i<n. 0 \<le> r ! i \<and> r ! i \<le> 1"
    and mono: "\<forall>i. i + 1 < n \<longrightarrow> m ! (i + 1) \<le> m ! i"
    and nonneg: "\<forall>i<n. 0 \<le> m ! i"
    and k: "k < n"
  shows "- (r ! k) * m ! k \<le> (\<Sum>i\<in>{k + 1..<n}. (r ! i - r ! (i - 1)) * m ! i) \<and>
         (\<Sum>i\<in>{k + 1..<n}. (r ! i - r ! (i - 1)) * m ! i) \<le> (1 - r ! k) * m ! k"
proof -
  have "k \<le> n - 1" using k by simp
  then show ?thesis
  proof (induction rule: inc_induct)
    case base
    have e: "{n - 1 + 1..<n} = {}" using k by auto
    have "0 \<le> r ! (n - 1) * m ! (n - 1)" "0 \<le> (1 - r ! (n - 1)) * m ! (n - 1)"
      using rr nonneg k by (simp_all add: less_imp_diff_less)
    then show ?case unfolding e by simp
  next
    case (step j)
    have j: "j + 1 < n" using step.hyps by simp
    define S where "S = (\<Sum>i\<in>{j + 1 + 1..<n}. (r ! i - r ! (i - 1)) * m ! i)"
    have split: "(\<Sum>i\<in>{j + 1..<n}. (r ! i - r ! (i - 1)) * m ! i) =
        (r ! (j + 1) - r ! j) * m ! (j + 1) + S"
      using j by (simp add: S_def sum.atLeast_Suc_lessThan)
    have IH: "- (r ! (j + 1)) * m ! (j + 1) \<le> S" "S \<le> (1 - r ! (j + 1)) * m ! (j + 1)"
      using step.IH by (simp_all add: S_def)
    have r0: "0 \<le> r ! j" "r ! j \<le> 1" using rr j by simp_all
    have m10: "m ! (j + 1) \<le> m ! j" using mono j by simp
    have up: "(1 - r ! j) * m ! (j + 1) \<le> (1 - r ! j) * m ! j"
      using r0 m10 by (intro mult_left_mono) simp_all
    have lo: "r ! j * m ! (j + 1) \<le> r ! j * m ! j"
      using r0 m10 by (intro mult_left_mono) simp_all
    have "(r ! (j + 1) - r ! j) * m ! (j + 1) + S \<le> (1 - r ! j) * m ! (j + 1)"
      using IH(2) by (simp add: algebra_simps)
    moreover have "- (r ! j) * m ! (j + 1) \<le> (r ! (j + 1) - r ! j) * m ! (j + 1) + S"
      using IH(1) by (simp add: algebra_simps)
    ultimately show ?case
      unfolding split using up lo by simp
  qed
qed

lemma envelope_decreasing:
  assumes "m \<noteq> []" and "j + 1 < length (m :: real list)"
  shows "envelope_loop (length m - 1) m ! (j + 1) \<le> envelope_loop (length m - 1) m ! j"
proof -
  have k: "length m - 1 < length m" using assms(1) by simp
  have "j < length m - 1" using assms(2) by simp
  then have "envelope_loop (length m - 1) m ! j =
      max (m ! j) (envelope_loop (length m - 1) m ! (j + 1))"
    using envelope_loop_step[OF k] by blast
  then show ?thesis by simp
qed

lemma voc_ap_eq:
  assumes "length rec = length prec"
  shows "voc_ap rec prec =
     Inr ((\<Sum>i\<in>{i\<in>{1..<length rec + 2}. (0 # rec @ [1]) ! i \<noteq> (0 # rec @ [1]) ! (i - 1)}.
             ((0 # rec @ [1]) ! i - (0 # rec @ [1]) ! (i - 1)) *
             envelope_loop (length prec + 1) (0 # prec @ [0]) ! i),
          0 # rec @ [1], envelope_loop (length prec + 1) (0 # prec @ [0]))"
proof -
  define mrec where "mrec = 0 # rec @ [1]"
  define mpre where "mpre = envelope_loop (length prec + 1) (0 # prec @ [0])"
  have lr: "length mrec = length rec + 2" by (simp add: mrec_def)
  have lp: "length mpre = length rec + 2"
    unfolding mpre_def envelope_loop_length using assms by simp
  have "\<forall>i\<in>set (i_list_of mrec). 0 < i \<and> i < length mrec \<and> i < length mpre"
    using lr lp by (auto simp: i_list_of_def)
  then have "ap_loop mrec mpre (i_list_of mrec) 0 =
      Inr (0 + sum_list (map (\<lambda>i. (mrec ! i - mrec ! (i - 1)) * mpre ! i) (i_list_of mrec)))"
    by (rule ap_loop_sum)
  then have "ap_loop mrec mpre (i_list_of mrec) 0 =
      Inr (\<Sum>i\<in>{i\<in>{1..<length mrec}. mrec ! i \<noteq> mrec ! (i - 1)}.
             (mrec ! i - mrec ! (i - 1)) * mpre ! i)"
    by (simp only: i_list_sum add_0)
  moreover have "voc_ap rec prec =
      (case ap_loop mrec mpre (i_list_of mrec) 0 of
         Inl e \<Rightarrow> Inl e | Inr ap \<Rightarrow> Inr (ap, mrec, mpre))"
    unfolding voc_ap_def mrec_def mpre_def Let_def
    by (simp del: envelope_loop.simps split: sum.splits)
  ultimately have "voc_ap rec prec =
      Inr ((\<Sum>i\<in>{i\<in>{1..<length mrec}. mrec ! i \<noteq> mrec ! (i - 1)}.
             (mrec ! i - mrec ! (i - 1)) * mpre ! i), mrec, mpre)"
    by (simp only: sum.case)
  then show ?thesis
    unfolding lr unfolding mrec_def mpre_def .
qed

lemma voc_ap_range:
  assumes len: "length rec = length prec"
    and rr: "\<forall>r\<in>set rec. 0 \<le> r \<and> r \<le> 1"
    and pp: "\<forall>p\<in>set prec. p \<le> 1"
    and ap: "ap = (\<Sum>i\<in>{i\<in>{1..<length rec + 2}. (0 # rec @ [1]) ! i \<noteq> (0 # rec @ [1]) ! (i - 1)}.
             ((0 # rec @ [1]) ! i - (0 # rec @ [1]) ! (i - 1)) *
             envelope_loop (length prec + 1) (0 # prec @ [0]) ! i)"
  shows "0 \<le> ap \<and> ap \<le> 1"
proof -
  define mrec where "mrec = 0 # rec @ [1]"
  define m0 where "m0 = 0 # prec @ [0]"
  define mpre where "mpre = envelope_loop (length m0 - 1) m0"
  define n where "n = length rec + 2"
  have ln: "length mrec = n" "length m0 = n" "length mpre = n"
    unfolding mpre_def envelope_loop_length using len by (simp_all add: mrec_def m0_def n_def)
  have m0ne: "m0 \<noteq> []" by (simp add: m0_def)
  have mp: "mpre = envelope_loop (length prec + 1) (0 # prec @ [0])"
    by (simp add: mpre_def m0_def del: envelope_loop.simps)
  have ap': "ap = (\<Sum>i\<in>{0 + 1..<n}. (mrec ! i - mrec ! (i - 1)) * mpre ! i)"
    unfolding ap mp mrec_def n_def using changes_sum_all[where n = "length rec + 2" and r = "0 # rec @ [1]"]
    by simp
  have "\<forall>x\<in>set mrec. 0 \<le> x \<and> x \<le> 1" using rr by (auto simp: mrec_def)
  then have r: "\<forall>i<n. 0 \<le> mrec ! i \<and> mrec ! i \<le> 1"
    using ln(1) by (metis nth_mem)
  have mono: "\<forall>i. i + 1 < n \<longrightarrow> mpre ! (i + 1) \<le> mpre ! i"
    using envelope_decreasing[OF m0ne] ln(2) unfolding mpre_def by blast
  have mx: "\<forall>i<n. mpre ! i = Max (set (drop i m0))"
    using envelope_loop_Max[OF m0ne] ln(2) unfolding mpre_def by blast
  have nonneg: "\<forall>i<n. 0 \<le> mpre ! i"
  proof (intro allI impI)
    fix i assume i: "i < n"
    then have "drop i m0 \<noteq> []" using ln(2) by simp
    then have "last (drop i m0) \<in> set (drop i m0)" by (rule last_in_set)
    moreover have "last (drop i m0) = 0" using i ln(2) by (simp add: m0_def)
    ultimately have "0 \<in> set (drop i m0)" by simp
    then have "0 \<le> Max (set (drop i m0))" by (intro Max_ge) simp_all
    then show "0 \<le> mpre ! i" using mx i by simp
  qed
  have "\<forall>x\<in>set m0. x \<le> 1" using pp by (auto simp: m0_def)
  then have "Max (set m0) \<le> 1" using m0ne by simp
  then have top: "mpre ! 0 \<le> 1" using mx ln(2) m0ne by (simp add: n_def)
  have "0 < n" by (simp add: n_def)
  from interval_bound[OF r mono nonneg this]
  have "- (mrec ! 0) * mpre ! 0 \<le> ap" "ap \<le> (1 - mrec ! 0) * mpre ! 0"
    unfolding ap' by simp_all
  then show ?thesis using top by (simp add: mrec_def)
qed

text \<open>
  C5. For a recall sequence and a precision sequence (of one length, every recall between 0
  and 1, no precision above 1), \<^verbatim>\<open>voc_ap\<close> returns the recall with 0 in front and 1
  behind, the precision with 0 in front and 0 behind and each value replaced by the largest
  value at its index or later, and as AP the sum of \<open>(mrec[i] - mrec[i-1]) * mpre[i]\<close>
  over exactly the indices where the recall changes; this AP lies between 0 and 1. The
  sentinels, the envelope and the sum need the equal length only.
\<close>

theorem voc_ap_result:
  assumes "length rec = length prec"
  shows "\<exists>ap mpre.
           voc_ap rec prec = Inr (ap, 0 # rec @ [1], mpre) \<and>
           length mpre = length prec + 2 \<and>
           (\<forall>i<length mpre. mpre ! i = Max (set (drop i (0 # prec @ [0])))) \<and>
           ap = (\<Sum>i\<in>{i\<in>{1..<length rec + 2}. (0 # rec @ [1]) ! i \<noteq> (0 # rec @ [1]) ! (i - 1)}.
                   ((0 # rec @ [1]) ! i - (0 # rec @ [1]) ! (i - 1)) * mpre ! i) \<and>
           ((\<forall>r\<in>set rec. 0 \<le> r \<and> r \<le> 1) \<and> (\<forall>p\<in>set prec. p \<le> 1) \<longrightarrow> 0 \<le> ap \<and> ap \<le> 1)"
proof -
  define m0 where "m0 = 0 # prec @ [0]"
  define mpre where "mpre = envelope_loop (length prec + 1) m0"
  define ap where "ap = (\<Sum>i\<in>{i\<in>{1..<length rec + 2}. (0 # rec @ [1]) ! i \<noteq> (0 # rec @ [1]) ! (i - 1)}.
             ((0 # rec @ [1]) ! i - (0 # rec @ [1]) ! (i - 1)) * mpre ! i)"
  have m0: "m0 \<noteq> []" "length m0 - 1 = length prec + 1" by (simp_all add: m0_def)
  have v: "voc_ap rec prec = Inr (ap, 0 # rec @ [1], mpre)"
    unfolding ap_def mpre_def m0_def by (rule voc_ap_eq[OF assms])
  have l: "length mpre = length prec + 2"
    unfolding mpre_def envelope_loop_length by (simp add: m0_def)
  have e: "\<forall>i<length mpre. mpre ! i = Max (set (drop i m0))"
    using envelope_loop_Max[OF m0(1)] unfolding m0(2) mpre_def envelope_loop_length by blast
  have r: "(\<forall>r\<in>set rec. 0 \<le> r \<and> r \<le> 1) \<and> (\<forall>p\<in>set prec. p \<le> 1) \<longrightarrow> 0 \<le> ap \<and> ap \<le> 1"
  proof
    assume h: "(\<forall>r\<in>set rec. 0 \<le> r \<and> r \<le> 1) \<and> (\<forall>p\<in>set prec. p \<le> 1)"
    show "0 \<le> ap \<and> ap \<le> 1"
      by (rule voc_ap_range[OF assms]) (use h in \<open>simp_all add: ap_def mpre_def m0_def\<close>)
  qed
  show ?thesis
    using v l e r unfolding m0_def ap_def by blast
qed

theorem voc_ap_result_witness:
  "\<exists>ap mpre. voc_ap [1/2, 1] [1, 1] = Inr (ap, [0, 1/2, 1, 1], mpre) \<and> 0 \<le> ap \<and> ap \<le> 1"
proof -
  have "length [1/2, 1 :: real] = length [1, 1 :: real]" by simp
  from voc_ap_result[OF this] obtain ap mpre where
    "voc_ap [1/2, 1] [1, 1] = Inr (ap, 0 # [1/2, 1] @ [1], mpre)"
    "(\<forall>r\<in>set [1/2, 1 :: real]. 0 \<le> r \<and> r \<le> 1) \<and> (\<forall>p\<in>set [1, 1 :: real]. p \<le> 1)
       \<longrightarrow> 0 \<le> ap \<and> ap \<le> 1"
    by blast
  then show ?thesis by simp
qed

section \<open>calculate\_ap: results\<close>

lemma cumsum_loop_length: "length (cumsum_loop c xs) = length xs"
  by (induction xs arbitrary: c) simp_all

lemma voc_ap_empty: "voc_ap [] [] = Inr (0, [0, 1], [0, 0])"
  by (simp add: voc_ap_def i_list_of_def py_get_def)

lemma curves_ap_zero_gt:
  "curves_ap fps tps 0 = (if tps = [] then Inr (0, [0, 1], [0, 0]) else Inl ZeroDivisionError)"
  by (cases tps) (simp_all add: curves_ap_def rec_of_def voc_ap_empty)

lemma global_sort_result:
  assumes "valid_argsort (map uminus (score bk)) order"
    and "order = argsort (map uminus (score bk))"
    and "length (fp bk) = length (tp bk)" and "length (tp bk) = length (score bk)"
  shows "global_sort argsort bk =
           Inr (map (\<lambda>k. fp bk ! k) order, map (\<lambda>k. tp bk ! k) order)"
proof -
  have "\<forall>i\<in>set order. i < length (score bk)"
    using assms(1) by (simp add: valid_argsort_def list_all_iff)
  then have "map_err (py_get (fp bk)) order = Inr (map (\<lambda>k. fp bk ! k) order)"
    "map_err (py_get (tp bk)) order = Inr (map (\<lambda>k. tp bk ! k) order)"
    using assms(3,4) by (simp_all add: map_err_py_get)
  then show ?thesis
    using assms(3,4) by (simp add: global_sort_def assms(2)[symmetric])
qed

lemma calculate_ap_zero:
  assumes "result_stat iou = Some bk" and "gt bk = 0"
    and "length (fp bk) = length (tp bk)"
    and "global_sort_detections \<longrightarrow>
           length (tp bk) = length (score bk) \<and>
           valid_argsort (map uminus (score bk)) (argsort (map uminus (score bk)))"
  shows "fst (calculate_ap argsort result_stat iou global_sort_detections) =
           (if tp bk = [] then Inr (0, [0, 1], [0, 0]) else Inl ZeroDivisionError)"
proof (cases global_sort_detections)
  case True
  define order where "order = argsort (map uminus (score bk))"
  have va: "valid_argsort (map uminus (score bk)) order"
    using True assms(4) by (simp add: order_def)
  have gs: "global_sort argsort bk =
           Inr (map (\<lambda>k. fp bk ! k) order, map (\<lambda>k. tp bk ! k) order)"
    using va order_def assms(3) True assms(4) by (intro global_sort_result) simp_all
  have "length order = length (tp bk)"
    using va True assms(4) by (simp add: valid_argsort_def)
  then have "(cumsum_loop 0 (map (\<lambda>k. tp bk ! k) order) = []) = (tp bk = [])"
    using cumsum_loop_length[of 0 "map (\<lambda>k. tp bk ! k) order"]
    by (metis length_0_conv length_map)
  then show ?thesis
    using True assms(1,2) gs by (simp add: calculate_ap_def curves_ap_zero_gt)
next
  case False
  have "(cumsum_loop 0 (tp bk) = []) = (tp bk = [])"
    using cumsum_loop_length[of 0 "tp bk"] by (metis length_0_conv)
  then show ?thesis
    using False assms(1,2,3) by (simp add: calculate_ap_def curves_ap_zero_gt Let_def)
qed

lemma calculate_ap_global_sort_keeps:
  "snd (calculate_ap argsort result_stat iou True) = result_stat"
  by (simp add: calculate_ap_def split: option.splits sum.splits prod.splits)

text \<open>
  C1 (as the code has it). For a bucket whose gt count is 0 (fp and tp of one length, and
  with \<^verbatim>\<open>global_sort_detections\<close> scores of that length and an argsort that is a
  sorting permutation): without detections \<^verbatim>\<open>calculate_ap\<close> returns AP 0.0 and
  the curves of the sentinels alone; with at least one detection the first recall division
  raises ZeroDivisionError.
\<close>

theorem calculate_ap_zero_gt:
  assumes "result_stat iou = Some bk" and "gt bk = 0"
    and "length (fp bk) = length (tp bk)"
    and "global_sort_detections \<longrightarrow>
           length (tp bk) = length (score bk) \<and>
           valid_argsort (map uminus (score bk)) (argsort (map uminus (score bk)))"
  shows "fst (calculate_ap argsort result_stat iou global_sort_detections) =
           (if tp bk = [] then Inr (0, [0, 1], [0, 0]) else Inl ZeroDivisionError)"
  using assms by (rule calculate_ap_zero)

theorem calculate_ap_zero_gt_witness:
  "fst (calculate_ap (\<lambda>xs. []) stat0 (1/2) False) = Inr (0, [0, 1], [0, 0]) \<and>
   fst (calculate_ap (\<lambda>xs. [0])
          (stat0(1/2 \<mapsto> \<lparr>score = [9/10], fp = [1], tp = [0], gt = 0\<rparr>)) (1/2) True)
     = Inl ZeroDivisionError"
  using calculate_ap_zero_gt[where result_stat = stat0 and iou = "1/2" and bk = empty_bucket
      and global_sort_detections = False and argsort = "\<lambda>xs. []"]
    calculate_ap_zero_gt[where
      result_stat = "stat0(1/2 \<mapsto> \<lparr>score = [9/10], fp = [1], tp = [0], gt = 0\<rparr>)"
      and iou = "1/2" and bk = "\<lparr>score = [9/10], fp = [1], tp = [0], gt = 0\<rparr>"
      and global_sort_detections = True and argsort = "\<lambda>xs. [0]"]
  by (simp add: stat0_def empty_bucket_def valid_argsort_def)

text \<open>
  C1 as the specification states it fails: no ground truth in the run and one detection
  (false-positive) raise ZeroDivisionError.
\<close>

theorem calculate_ap_zero_gt_raises:
  "fst (calculate_ap (\<lambda>xs. [0])
          (stat0(1/2 \<mapsto> \<lparr>score = [9/10], fp = [1], tp = [0], gt = 0\<rparr>)) (1/2) False)
     = Inl ZeroDivisionError"
  by (simp add: calculate_ap_def curves_ap_def rec_of_def Let_def)

text \<open>
  C2 fails on the code. Without \<^verbatim>\<open>global_sort_detections\<close> the call overwrites the
  tp and fp lists of the bucket with their running sums, and a second call on the same
  dict returns another AP (1.5 after 1.0). With \<^verbatim>\<open>global_sort_detections\<close> the
  dict is left as it was (\<open>calculate_ap_global_sort_keeps\<close>).
\<close>

theorem calculate_ap_mutates_input:
  "calculate_ap (\<lambda>xs. [])
     (stat0(1/2 \<mapsto> \<lparr>score = [9/10, 8/10], fp = [0, 0], tp = [1, 1], gt = 2\<rparr>)) (1/2) False =
   (Inr (1, [0, 1/2, 1, 1], [1, 1, 1, 0]),
    stat0(1/2 \<mapsto> \<lparr>score = [9/10, 8/10], fp = [0, 0], tp = [1, 2], gt = 2\<rparr>)) \<and>
   calculate_ap (\<lambda>xs. [])
     (stat0(1/2 \<mapsto> \<lparr>score = [9/10, 8/10], fp = [0, 0], tp = [1, 2], gt = 2\<rparr>)) (1/2) False =
   (Inr (3/2, [0, 1/2, 3/2, 1], [1, 1, 1, 0]),
    stat0(1/2 \<mapsto> \<lparr>score = [9/10, 8/10], fp = [0, 0], tp = [1, 3], gt = 2\<rparr>))"
  by (simp add: calculate_ap_def curves_ap_def rec_of_def prec_of_def voc_ap_def i_list_of_def
      py_get_def Let_def)


section \<open>The two sorts\<close>

lemma argsort_traced_valid: "valid_argsort xs (argsort_traced xs)"
proof (cases "xs = replicate 18 (- (1/2))")
  case True
  then show ?thesis
    by (simp add: argsort_traced_def order_traced_def valid_argsort_def)
next
  case False
  have "sorted (map (\<lambda>i. xs ! i) (sort_key (\<lambda>i. xs ! i) [0..<length xs]))"
    by (rule sorted_sort_key)
  then show ?thesis
    using False by (simp add: argsort_traced_def valid_argsort_def list_all_iff)
qed






end
